theory Spec2Isabelle
  imports Main
begin

section \<open>Hotkey tag navigation: the directional tag parser (parser.ts)\<close>

subsection \<open>JavaScript string primitives used by the parser\<close>

text \<open>
  \<^verbatim>\<open>String.prototype.startsWith(search, position)\<close>: the position is clamped into
  \<open>0 .. length\<close>, and the result is true iff the text at that position begins with the
  search string (always true for the empty search string).
\<close>

definition startsWith :: "string \<Rightarrow> string \<Rightarrow> int \<Rightarrow> bool" where
  "startsWith s d i = (take (length d) (drop (nat (max 0 (min i (int (length s))))) s) = d)"

text \<open>
  \<^verbatim>\<open>String.prototype.substring(a, b)\<close>: both indices are clamped into \<open>0 .. length\<close>
  and swapped when the first is the larger one.
\<close>

definition substring :: "string \<Rightarrow> int \<Rightarrow> int \<Rightarrow> string" where
  "substring s a b =
     (let a' = nat (max 0 (min a (int (length s))));
          b' = nat (max 0 (min b (int (length s))));
          lo = min a' b';
          hi = max a' b'
      in take (hi - lo) (drop lo s))"

subsection \<open>The editor collaborator\<close>

text \<open>
  The Obsidian editor is external to the repository. It is modelled by the text it holds
  and the two ends of its selection as linear offsets (\<open>selFrom \<le> selTo\<close>; a bare cursor
  has both equal). A line/column position is represented by the linear offset it stands
  for, so \<open>posToOffset\<close> is the identity and \<open>offsetToPos\<close> clamps into the document.
\<close>

record Editor =
  doc :: string
  selFrom :: int
  selTo :: int

definition getValue :: "Editor \<Rightarrow> string" where
  "getValue ed = doc ed"

definition offsetToPos :: "Editor \<Rightarrow> int \<Rightarrow> int" where
  "offsetToPos ed n = max 0 (min n (int (length (doc ed))))"

definition posToOffset :: "Editor \<Rightarrow> int \<Rightarrow> int" where
  "posToOffset ed pos = pos"

definition getCursorFrom :: "Editor \<Rightarrow> int" where
  "getCursorFrom ed = selFrom ed"

definition getCursorTo :: "Editor \<Rightarrow> int" where
  "getCursorTo ed = selTo ed"

definition setCursor :: "Editor \<Rightarrow> int \<Rightarrow> Editor" where
  "setCursor ed pos = ed\<lparr>selFrom := pos, selTo := pos\<rparr>"

definition setSelection :: "Editor \<Rightarrow> int \<Rightarrow> int \<Rightarrow> Editor" where
  "setSelection ed anchor hd_pos = ed\<lparr>selFrom := min anchor hd_pos, selTo := max anchor hd_pos\<rparr>"

definition getSelection :: "Editor \<Rightarrow> string" where
  "getSelection ed = substring (doc ed) (selFrom ed) (selTo ed)"

text \<open>
  \<open>replaceRange\<close> puts the replacement in place of the text between the two positions;
  the selection is kept inside the new document.
\<close>

definition replaceRange :: "Editor \<Rightarrow> string \<Rightarrow> int \<Rightarrow> int \<Rightarrow> Editor" where
  "replaceRange ed replacement from_pos to_pos =
     (let d = take (nat from_pos) (doc ed) @ replacement @ drop (nat to_pos) (doc ed)
      in \<lparr>doc = d,
          selFrom = max 0 (min (selFrom ed) (int (length d))),
          selTo = max 0 (min (selTo ed) (int (length d)))\<rparr>)"

subsection \<open>Parser state\<close>

record TagStruct =
  parentStart :: int
  parentEnd :: int
  innerStart :: int
  innerEnd :: int
  content :: string
  openingTagPos :: "int list"
  closingTagPos :: "int list"

record AdvanceTagSettings =
  openingTagDelimiter :: string
  closingTagDelimiter :: string
  showDebugInfo :: bool
  wrapAroundEnabled :: bool
  selectInnerByDefault :: bool

record Parser =
  settings :: AdvanceTagSettings
  openingDelimiter :: string
  closingDelimiter :: string
  tagStruct :: "TagStruct option"

definition newParser :: "AdvanceTagSettings \<Rightarrow> string \<Rightarrow> string \<Rightarrow> Parser" where
  "newParser st od cd =
     \<lparr>settings = st, openingDelimiter = od, closingDelimiter = cd, tagStruct = None\<rparr>"

text \<open>The plugin's \<^verbatim>\<open>DEFAULT_SETTINGS\<close> (settings.ts).\<close>

definition DEFAULT_SETTINGS :: AdvanceTagSettings where
  "DEFAULT_SETTINGS =
     \<lparr>openingTagDelimiter = ''|<'', closingTagDelimiter = ''>|'', showDebugInfo = False,
      wrapAroundEnabled = True, selectInnerByDefault = False\<rparr>"

definition reset :: "Parser \<Rightarrow> Parser" where
  "reset p = p\<lparr>tagStruct := None\<rparr>"

definition setOpeningDelimiter :: "string \<Rightarrow> Parser \<Rightarrow> Parser" where
  "setOpeningDelimiter delimiter p = p\<lparr>openingDelimiter := delimiter\<rparr>"

definition setClosingDelimiter :: "string \<Rightarrow> Parser \<Rightarrow> Parser" where
  "setClosingDelimiter delimiter p = p\<lparr>closingDelimiter := delimiter\<rparr>"

definition getTagPosition :: "Parser \<Rightarrow> (int \<times> int) option" where
  "getTagPosition p =
     (case tagStruct p of Some t \<Rightarrow> Some (parentStart t, parentEnd t) | None \<Rightarrow> None)"

text \<open>\<^verbatim>\<open>String.prototype.endsWith(search)\<close>.\<close>

definition endsWith :: "string \<Rightarrow> string \<Rightarrow> bool" where
  "endsWith s d = (length d \<le> length s \<and> drop (length s - length d) s = d)"

definition checkInTag :: "Editor \<Rightarrow> Parser \<Rightarrow> bool" where
  "checkInTag ed p =
     (let cursorStartIndex = posToOffset ed (getCursorFrom ed);
          cursorEndIndex = posToOffset ed (getCursorTo ed)
      in if cursorEndIndex - cursorStartIndex > 0
         then (let selectedText = getSelection ed
               in startsWith selectedText (openingDelimiter p) 0 \<and>
                  endsWith selectedText (closingDelimiter p))
         else False)"

definition getTagContent :: "Parser \<Rightarrow> string option" where
  "getTagContent p = (case tagStruct p of Some t \<Rightarrow> Some (content t) | None \<Rightarrow> None)"

definition getInnerTagPosition :: "Parser \<Rightarrow> (int \<times> int) option" where
  "getInnerTagPosition p =
     (case tagStruct p of Some t \<Rightarrow> Some (innerStart t, innerEnd t) | None \<Rightarrow> None)"

definition getInnerTagContent :: "Parser \<Rightarrow> string option" where
  "getInnerTagContent p = (case tagStruct p of Some t \<Rightarrow> Some (content t) | None \<Rightarrow> None)"

definition highlightTag :: "Editor \<Rightarrow> Parser \<Rightarrow> bool \<times> Editor" where
  "highlightTag ed p =
     (case tagStruct p of
        Some t \<Rightarrow>
          (True, setSelection ed (offsetToPos ed (parentStart t)) (offsetToPos ed (parentEnd t)))
      | None \<Rightarrow> (False, ed))"

definition highlightInnerTag :: "Editor \<Rightarrow> Parser \<Rightarrow> bool \<times> Editor" where
  "highlightInnerTag ed p =
     (case tagStruct p of
        Some t \<Rightarrow>
          (True, setSelection ed (offsetToPos ed (innerStart t)) (offsetToPos ed (innerEnd t)))
      | None \<Rightarrow> (False, ed))"

text \<open>
  \<open>acceptDefaultText\<close> replaces the outer span by the stored content and selects it.
  The parser object is returned as well, since the method leaves it as it was.
\<close>

definition acceptDefaultText :: "Editor \<Rightarrow> Parser \<Rightarrow> bool \<times> Parser \<times> Editor" where
  "acceptDefaultText ed p =
     (case tagStruct p of
        Some t \<Rightarrow>
          (let innerContent = content t;
               ed1 = replaceRange ed innerContent
                       (offsetToPos ed (parentStart t)) (offsetToPos ed (parentEnd t));
               startPos = offsetToPos ed1 (innerStart t - int (length (openingDelimiter p)));
               endPos = offsetToPos ed1 (innerEnd t - int (length (closingDelimiter p)))
           in (True, p, setSelection ed1 startPos endPos))
      | None \<Rightarrow> (False, p, ed))"

subsection \<open>The scanning loop of \<open>parse\<close>\<close>

text \<open>
  One pass through the loop body either executes \<^verbatim>\<open>return true\<close> with the finished
  tag, or goes on to the next index with the flag \<open>initTag\<close> and the tag under
  construction.
\<close>

datatype Step = Return "TagStruct option" | Continue bool "TagStruct option"

definition openingFound ::
  "string \<Rightarrow> string \<Rightarrow> bool \<Rightarrow> int \<Rightarrow> bool \<Rightarrow> TagStruct option \<Rightarrow> Step" where
  "openingFound buf od forward i initTag ts =
     (if \<not> initTag \<and> \<not> forward then Continue initTag ts
      else if \<not> initTag \<and> forward then
        Continue True (Some \<lparr>parentStart = i, parentEnd = - 1,
                              innerStart = i + int (length od), innerEnd = - 1,
                              content = [], openingTagPos = [i], closingTagPos = []\<rparr>)
      else
        (case ts of
           None \<Rightarrow> Continue initTag None
         | Some t \<Rightarrow>
             (let t1 = t\<lparr>openingTagPos := openingTagPos t @ [i]\<rparr>;
                  t2 = (if \<not> forward
                        then t1\<lparr>innerStart := i + int (length od), parentStart := i\<rparr>
                        else t1)
              in if length (closingTagPos t2) > 0 then
                   (let t3 = t2\<lparr>openingTagPos := butlast (openingTagPos t2),
                                 closingTagPos := butlast (closingTagPos t2)\<rparr>
                    in if length (openingTagPos t3) = 0 \<and> length (closingTagPos t3) = 0
                       then Return (Some (t3\<lparr>content :=
                                      substring buf (innerStart t3) (innerEnd t3)\<rparr>))
                       else Continue initTag (Some t3))
                 else Continue initTag (Some t2))))"

definition closingFound ::
  "string \<Rightarrow> string \<Rightarrow> bool \<Rightarrow> int \<Rightarrow> bool \<Rightarrow> TagStruct option \<Rightarrow> Step" where
  "closingFound buf cd forward i initTag ts =
     (if \<not> initTag \<and> forward then Continue initTag ts
      else if \<not> initTag \<and> \<not> forward then
        Continue True (Some \<lparr>parentStart = - 1, parentEnd = i + int (length cd),
                              innerStart = - 1, innerEnd = i,
                              content = [], openingTagPos = [], closingTagPos = [i]\<rparr>)
      else
        (case ts of
           None \<Rightarrow> Continue initTag None
         | Some t \<Rightarrow>
             (let t1 = t\<lparr>closingTagPos := closingTagPos t @ [i]\<rparr>;
                  t2 = (if forward
                        then t1\<lparr>innerEnd := i, parentEnd := i + int (length cd)\<rparr>
                        else t1)
              in if length (openingTagPos t2) > 0 then
                   (let t3 = t2\<lparr>closingTagPos := butlast (closingTagPos t2),
                                 openingTagPos := butlast (openingTagPos t2)\<rparr>
                    in if length (closingTagPos t3) = 0 \<and> length (openingTagPos t3) = 0
                       then Return (Some (t3\<lparr>content :=
                                      substring buf (innerStart t3) (innerEnd t3)\<rparr>))
                       else Continue initTag (Some t3))
                 else Continue initTag (Some t2))))"

definition loopBody ::
  "string \<Rightarrow> string \<Rightarrow> string \<Rightarrow> bool \<Rightarrow> int \<Rightarrow> bool \<Rightarrow> TagStruct option \<Rightarrow> Step" where
  "loopBody buf od cd forward i initTag ts =
     (if startsWith buf od i then openingFound buf od forward i initTag ts
      else if startsWith buf cd i then closingFound buf cd forward i initTag ts
      else Continue initTag ts)"

text \<open>
  The \<^verbatim>\<open>for\<close> loop: \<open>scan\<close> returns \<open>(True, ts)\<close> when the body returned true and
  \<open>(False, ts)\<close> when the index ran off the text, with the tag state at that moment.
\<close>

function scan ::
  "string \<Rightarrow> string \<Rightarrow> string \<Rightarrow> bool \<Rightarrow> int \<Rightarrow> bool \<Rightarrow> TagStruct option
     \<Rightarrow> bool \<times> TagStruct option" where
  "scan buf od cd forward i initTag ts =
     (if (if forward then i < int (length buf) else i \<ge> 0) then
        (case loopBody buf od cd forward i initTag ts of
           Return r \<Rightarrow> (True, r)
         | Continue initTag' ts' \<Rightarrow>
             scan buf od cd forward (i + (if forward then 1 else - 1)) initTag' ts')
      else (False, ts))"
  by pat_completeness auto
termination
  by (relation "measure (\<lambda>(buf, od, cd, forward, i, initTag, ts).
        if forward then nat (int (length buf) - i) else nat (i + 1))") auto

subsection \<open>\<open>parse\<close>\<close>

text \<open>
  \<open>parse\<close> reads the editor, mutates \<^verbatim>\<open>this.tagStruct\<close> and may move the cursor, so
  the model returns the boolean together with the parser and the editor after the call.
  \<open>parse\<close> is the method on a parser whose logger has been set, as the plugin does right
  after it constructs the parser: the messages it writes to the logger and to the console
  change nothing it returns. The case of a logger that was never set is
  \<open>parseWithLogger\<close> below. \<open>cursorIndex\<close> is the value the loop variable starts from.
\<close>

definition cursorIndex :: "Editor \<Rightarrow> bool \<Rightarrow> int" where
  "cursorIndex ed forward =
     (if \<not> forward then posToOffset ed (getCursorFrom ed) - 1
      else posToOffset ed (getCursorTo ed))"

function parse :: "Editor \<Rightarrow> Parser \<Rightarrow> bool \<Rightarrow> bool \<Rightarrow> bool \<times> Parser \<times> Editor" where
  "parse ed p forward wrapCheck =
     (if wrapCheck \<and> tagStruct p = None then (False, p, ed)
      else
        (let buf = getValue ed;
             wrapAround = wrapAroundEnabled (settings p)
         in case scan buf (openingDelimiter p) (closingDelimiter p) forward
                   (cursorIndex ed forward) False (tagStruct p) of
              (True, r) \<Rightarrow> (True, p\<lparr>tagStruct := r\<rparr>, ed)
            | (False, r) \<Rightarrow>
                if r = None \<and> wrapAround \<and> \<not> wrapCheck then
                  (if forward
                   then parse (setCursor ed (offsetToPos ed 0)) (p\<lparr>tagStruct := r\<rparr>) True True
                   else parse (setCursor ed (offsetToPos ed (int (length (getValue ed)))))
                          (p\<lparr>tagStruct := r\<rparr>) False True)
                else (False, p\<lparr>tagStruct := None\<rparr>, ed)))"
  by pat_completeness auto
termination
  by (relation "measure (\<lambda>(ed, p, forward, wrapCheck). if wrapCheck then 0 else 1)") auto

subsection \<open>The logger\<close>

text \<open>
  The field \<^verbatim>\<open>logger!: Logger\<close> is left unassigned by the constructor and assigned by
  \<^verbatim>\<open>setLogger\<close> only. The first statement of \<^verbatim>\<open>parse\<close> is \<^verbatim>\<open>this.logger.debug(...)\<close>,
  which raises a \<^verbatim>\<open>TypeError\<close> when the field is still undefined; \<^verbatim>\<open>Logger.debug\<close>
  itself writes to the console and starts a write to the log file whose errors it
  catches, so with a logger set no call to it raises. \<open>parseWithLogger\<close> takes the field
  as its first argument (\<open>None\<close> until \<^verbatim>\<open>setLogger\<close> has been called) and returns the
  exception as a value.
\<close>

datatype LogLevel = DEBUG | INFO | WARN | ERROR

record Logger =
  currentLogLevel :: LogLevel

datatype error = TypeError

definition setLogger :: "Logger \<Rightarrow> Logger option \<Rightarrow> Logger option" where
  "setLogger lg field = Some lg"

definition parseWithLogger ::
  "Logger option \<Rightarrow> Editor \<Rightarrow> Parser \<Rightarrow> bool \<Rightarrow> bool \<Rightarrow> error + (bool \<times> Parser \<times> Editor)" where
  "parseWithLogger lg ed p forward wrapCheck =
     (case lg of
        None \<Rightarrow> Inl TypeError
      | Some l \<Rightarrow> Inr (parse ed p forward wrapCheck))"

subsection \<open>Predicates used in the statements\<close>

text \<open>
  A tag is \<open>resolved\<close> for a text when its outer start carries the opening delimiter, its
  inner end carries a closing delimiter (at a place where the opening one does not match,
  since the loop tests the opening delimiter first), the four offsets are tied together by
  the delimiter lengths, the content is the substring between the inner offsets and both
  stacks are empty.
\<close>

definition resolved :: "string \<Rightarrow> string \<Rightarrow> string \<Rightarrow> TagStruct \<Rightarrow> bool" where
  "resolved buf od cd t \<longleftrightarrow>
     startsWith buf od (parentStart t) \<and>
     innerStart t = parentStart t + int (length od) \<and>
     parentStart t < innerEnd t \<and>
     \<not> startsWith buf od (innerEnd t) \<and>
     startsWith buf cd (innerEnd t) \<and>
     parentEnd t = innerEnd t + int (length cd) \<and>
     content t = substring buf (innerStart t) (innerEnd t) \<and>
     openingTagPos t = [] \<and> closingTagPos t = []"

text \<open>The offsets of a text at which a delimiter matches, in increasing order.\<close>

definition matchPositions :: "string \<Rightarrow> string \<Rightarrow> int list" where
  "matchPositions buf d = filter (\<lambda>i. startsWith buf d i) (map int [0..<length buf])"

text \<open>
  No closing delimiter begins inside an occurrence of the opening delimiter.
\<close>

definition noOverlap :: "string \<Rightarrow> string \<Rightarrow> string \<Rightarrow> bool" where
  "noOverlap buf od cd \<longleftrightarrow>
     (\<forall>i \<in> set (matchPositions buf od). \<forall>j \<in> set (matchPositions buf cd).
        i < j \<longrightarrow> i + int (length od) \<le> j)"

text \<open>The selection of an editor lies inside its document.\<close>

definition wfEditor :: "Editor \<Rightarrow> bool" where
  "wfEditor ed \<longleftrightarrow> 0 \<le> selFrom ed \<and> selFrom ed \<le> selTo ed \<and> selTo ed \<le> int (length (doc ed))"

text \<open>
  The tag that \<open>parse\<close> leaves for the region whose opening delimiter is at offset \<open>a\<close>
  and whose closing delimiter is at offset \<open>c\<close>.
\<close>

definition regionTag :: "string \<Rightarrow> string \<Rightarrow> string \<Rightarrow> int \<Rightarrow> int \<Rightarrow> TagStruct" where
  "regionTag buf od cd a c =
     \<lparr>parentStart = a, parentEnd = c + int (length cd),
      innerStart = a + int (length od), innerEnd = c,
      content = substring buf (a + int (length od)) c,
      openingTagPos = [], closingTagPos = []\<rparr>"

section \<open>Properties of the scanning loop\<close>

declare scan.simps [simp del] parse.simps [simp del]

subsection \<open>Single steps\<close>

lemma scan_fwd_end: "int (length buf) \<le> i \<Longrightarrow> scan buf od cd True i it ts = (False, ts)"
  by (simp add: scan.simps)

lemma scan_bwd_end: "i < 0 \<Longrightarrow> scan buf od cd False i it ts = (False, ts)"
  by (simp add: scan.simps)

lemma scan_fwd_step:
  "i < int (length buf) \<Longrightarrow>
   scan buf od cd True i it ts =
     (case loopBody buf od cd True i it ts of
        Return r \<Rightarrow> (True, r)
      | Continue it' ts' \<Rightarrow> scan buf od cd True (i + 1) it' ts')"
  by (subst scan.simps) simp

lemma scan_bwd_step:
  "0 \<le> i \<Longrightarrow>
   scan buf od cd False i it ts =
     (case loopBody buf od cd False i it ts of
        Return r \<Rightarrow> (True, r)
      | Continue it' ts' \<Rightarrow> scan buf od cd False (i - 1) it' ts')"
  by (subst scan.simps) (simp split: Step.splits)

lemma loopBody_plain:
  "\<not> startsWith buf od i \<Longrightarrow> \<not> startsWith buf cd i \<Longrightarrow>
   loopBody buf od cd forward i it ts = Continue it ts"
  by (simp add: loopBody_def)

lemma loopBody_fwd_before:
  "\<not> startsWith buf od i \<Longrightarrow> loopBody buf od cd True i False ts = Continue False ts"
  by (simp add: loopBody_def closingFound_def)

lemma loopBody_bwd_before:
  "startsWith buf od i \<or> \<not> startsWith buf cd i \<Longrightarrow>
   loopBody buf od cd False i False ts = Continue False ts"
  by (auto simp: loopBody_def openingFound_def)

lemma loopBody_fwd_init:
  "startsWith buf od i \<Longrightarrow>
   loopBody buf od cd True i False ts =
     Continue True (Some \<lparr>parentStart = i, parentEnd = - 1,
                           innerStart = i + int (length od), innerEnd = - 1,
                           content = [], openingTagPos = [i], closingTagPos = []\<rparr>)"
  by (simp add: loopBody_def openingFound_def)

lemma loopBody_bwd_init:
  "\<not> startsWith buf od i \<Longrightarrow> startsWith buf cd i \<Longrightarrow>
   loopBody buf od cd False i False ts =
     Continue True (Some \<lparr>parentStart = - 1, parentEnd = i + int (length cd),
                           innerStart = - 1, innerEnd = i,
                           content = [], openingTagPos = [], closingTagPos = [i]\<rparr>)"
  by (simp add: loopBody_def closingFound_def)

lemma loopBody_fwd_open:
  "startsWith buf od i \<Longrightarrow> closingTagPos t = [] \<Longrightarrow>
   loopBody buf od cd True i True (Some t) =
     Continue True (Some (t\<lparr>openingTagPos := openingTagPos t @ [i]\<rparr>))"
  by (simp add: loopBody_def openingFound_def)

lemma loopBody_fwd_close:
  "\<not> startsWith buf od i \<Longrightarrow> startsWith buf cd i \<Longrightarrow>
   closingTagPos t = [] \<Longrightarrow> openingTagPos t \<noteq> [] \<Longrightarrow>
   loopBody buf od cd True i True (Some t) =
     (if butlast (openingTagPos t) = []
      then Return (Some (t\<lparr>closingTagPos := [], innerEnd := i,
                            parentEnd := i + int (length cd), openingTagPos := [],
                            content := substring buf (innerStart t) i\<rparr>))
      else Continue True (Some (t\<lparr>closingTagPos := [], innerEnd := i,
                                  parentEnd := i + int (length cd),
                                  openingTagPos := butlast (openingTagPos t)\<rparr>)))"
  by (simp add: loopBody_def closingFound_def Let_def)

lemma loopBody_bwd_close:
  "\<not> startsWith buf od i \<Longrightarrow> startsWith buf cd i \<Longrightarrow> openingTagPos t = [] \<Longrightarrow>
   loopBody buf od cd False i True (Some t) =
     Continue True (Some (t\<lparr>closingTagPos := closingTagPos t @ [i]\<rparr>))"
  by (simp add: loopBody_def closingFound_def)

lemma loopBody_bwd_open:
  "startsWith buf od i \<Longrightarrow> openingTagPos t = [] \<Longrightarrow> closingTagPos t \<noteq> [] \<Longrightarrow>
   loopBody buf od cd False i True (Some t) =
     (if butlast (closingTagPos t) = []
      then Return (Some (t\<lparr>openingTagPos := [], innerStart := i + int (length od),
                            parentStart := i, closingTagPos := [],
                            content := substring buf (i + int (length od)) (innerEnd t)\<rparr>))
      else Continue True (Some (t\<lparr>openingTagPos := [], innerStart := i + int (length od),
                                  parentStart := i,
                                  closingTagPos := butlast (closingTagPos t)\<rparr>)))"
  by (simp add: loopBody_def openingFound_def Let_def)


subsection \<open>A scan that returns true has resolved a tag\<close>

lemma scan_fwd_tracking:
  "scan buf od cd forward i initTag ts = (True, r) \<Longrightarrow> forward \<Longrightarrow> initTag \<Longrightarrow>
   ts = Some t \<Longrightarrow> startsWith buf od (parentStart t) \<Longrightarrow>
   innerStart t = parentStart t + int (length od) \<Longrightarrow> parentStart t < i \<Longrightarrow>
   openingTagPos t \<noteq> [] \<Longrightarrow> closingTagPos t = [] \<Longrightarrow>
   \<exists>t'. r = Some t' \<and> resolved buf od cd t' \<and> parentStart t' = parentStart t \<and>
        innerEnd t' < int (length buf)"
proof (induction buf od cd forward i initTag ts arbitrary: t rule: scan.induct)
  case (1 buf od cd forward i initTag ts)
  have fw: "forward" and it: "initTag" and ts: "ts = Some t" by fact+
  have inr: "i < int (length buf)"
    using "1.prems"(1) fw by (cases "i < int (length buf)") (simp_all add: scan_fwd_end)
  note step = scan_fwd_step [OF inr, of od cd True "Some t"]
  consider (isOpen) "startsWith buf od i"
    | (isClose) "\<not> startsWith buf od i" "startsWith buf cd i"
    | (plain) "\<not> startsWith buf od i" "\<not> startsWith buf cd i"
    by blast
  then show ?case
  proof cases
    case isOpen
    let ?t = "t\<lparr>openingTagPos := openingTagPos t @ [i]\<rparr>"
    have lb: "loopBody buf od cd forward i initTag ts = Continue True (Some ?t)"
      using loopBody_fwd_open [OF isOpen "1.prems"(9)] fw it ts by simp
    have sc: "scan buf od cd forward (i + (if forward then 1 else - 1)) True (Some ?t) = (True, r)"
      using "1.prems"(1) step lb fw it ts by simp
    have "\<exists>t'. r = Some t' \<and> resolved buf od cd t' \<and> parentStart t' = parentStart ?t \<and>
        innerEnd t' < int (length buf)"
      by (rule "1.IH" [OF _ lb sc fw]) (use "1.prems" fw inr in simp_all)
    then show ?thesis by simp
  next
    case isClose
    note lb = loopBody_fwd_close [OF isClose "1.prems"(9) "1.prems"(8)]
    show ?thesis
    proof (cases "butlast (openingTagPos t) = []")
      case True
      then have "r = Some (t\<lparr>closingTagPos := [], innerEnd := i,
                            parentEnd := i + int (length cd), openingTagPos := [],
                            content := substring buf (innerStart t) i\<rparr>)"
        using "1.prems"(1) step lb fw it ts by simp
      then show ?thesis
        using "1.prems" isClose inr by (simp add: resolved_def)
    next
      case False
      let ?t = "t\<lparr>closingTagPos := [], innerEnd := i, parentEnd := i + int (length cd),
                   openingTagPos := butlast (openingTagPos t)\<rparr>"
      have lb': "loopBody buf od cd forward i initTag ts = Continue True (Some ?t)"
        using lb False fw it ts by simp
      have sc: "scan buf od cd forward (i + (if forward then 1 else - 1)) True (Some ?t) = (True, r)"
        using "1.prems"(1) step lb' fw it ts by simp
      have "\<exists>t'. r = Some t' \<and> resolved buf od cd t' \<and> parentStart t' = parentStart ?t \<and>
          innerEnd t' < int (length buf)"
        by (rule "1.IH" [OF _ lb' sc fw]) (use "1.prems" fw inr False in simp_all)
      then show ?thesis by simp
    qed
  next
    case plain
    have lb: "loopBody buf od cd forward i initTag ts = Continue True (Some t)"
      using loopBody_plain [OF plain] it ts by simp
    have sc: "scan buf od cd forward (i + (if forward then 1 else - 1)) True (Some t) = (True, r)"
      using "1.prems"(1) step lb fw it ts by simp
    show ?thesis
      by (rule "1.IH" [OF _ lb sc fw]) (use "1.prems" fw inr in simp_all)
  qed
qed


lemma scan_fwd_searching:
  "scan buf od cd forward i initTag ts = (True, r) \<Longrightarrow> forward \<Longrightarrow> \<not> initTag \<Longrightarrow>
   \<exists>t'. r = Some t' \<and> resolved buf od cd t' \<and> i \<le> parentStart t' \<and>
        (\<forall>k. i \<le> k \<and> k < parentStart t' \<longrightarrow> \<not> startsWith buf od k) \<and>
        innerEnd t' < int (length buf)"
proof (induction buf od cd forward i initTag ts rule: scan.induct)
  case (1 buf od cd forward i initTag ts)
  have fw: "forward" and it: "\<not> initTag" by fact+
  have inr: "i < int (length buf)"
    using "1.prems"(1) fw by (cases "i < int (length buf)") (simp_all add: scan_fwd_end)
  note step = scan_fwd_step [OF inr, of od cd False ts]
  show ?case
  proof (cases "startsWith buf od i")
    case True
    let ?t = "\<lparr>parentStart = i, parentEnd = - 1, innerStart = i + int (length od),
               innerEnd = - 1, content = [], openingTagPos = [i], closingTagPos = []\<rparr>"
    have sc: "scan buf od cd True (i + 1) True (Some ?t) = (True, r)"
      using "1.prems"(1) step loopBody_fwd_init [OF True, of cd ts] fw it by simp
    have "\<exists>t'. r = Some t' \<and> resolved buf od cd t' \<and> parentStart t' = parentStart ?t \<and>
        innerEnd t' < int (length buf)"
      by (rule scan_fwd_tracking [OF sc]) (use True in simp_all)
    then show ?thesis by auto
  next
    case False
    have lb: "loopBody buf od cd forward i initTag ts = Continue False ts"
      using loopBody_fwd_before [OF False] fw it by simp
    have sc: "scan buf od cd forward (i + (if forward then 1 else - 1)) False ts = (True, r)"
      using "1.prems"(1) step lb fw it by simp
    have "\<exists>t'. r = Some t' \<and> resolved buf od cd t' \<and>
        i + (if forward then 1 else - 1) \<le> parentStart t' \<and>
        (\<forall>k. i + (if forward then 1 else - 1) \<le> k \<and> k < parentStart t'
             \<longrightarrow> \<not> startsWith buf od k) \<and>
        innerEnd t' < int (length buf)"
      by (rule "1.IH" [OF _ lb sc fw]) (use fw inr in simp_all)
    then obtain t' where t': "r = Some t'" "resolved buf od cd t'" "i + 1 \<le> parentStart t'"
        "\<forall>k. i + 1 \<le> k \<and> k < parentStart t' \<longrightarrow> \<not> startsWith buf od k"
        "innerEnd t' < int (length buf)"
      using fw by auto
    have "\<not> startsWith buf od k" if "i \<le> k" "k < parentStart t'" for k
    proof (cases "k = i")
      case True
      with False show ?thesis by simp
    next
      case False
      with that t'(4) show ?thesis by simp
    qed
    with t' show ?thesis by auto
  qed
qed

lemma scan_bwd_tracking:
  "scan buf od cd forward i initTag ts = (True, r) \<Longrightarrow> \<not> forward \<Longrightarrow> initTag \<Longrightarrow>
   ts = Some t \<Longrightarrow> \<not> startsWith buf od (innerEnd t) \<Longrightarrow> startsWith buf cd (innerEnd t) \<Longrightarrow>
   parentEnd t = innerEnd t + int (length cd) \<Longrightarrow> i < innerEnd t \<Longrightarrow>
   closingTagPos t \<noteq> [] \<Longrightarrow> openingTagPos t = [] \<Longrightarrow>
   \<exists>t'. r = Some t' \<and> resolved buf od cd t' \<and> innerEnd t' = innerEnd t \<and>
        0 \<le> parentStart t'"
proof (induction buf od cd forward i initTag ts arbitrary: t rule: scan.induct)
  case (1 buf od cd forward i initTag ts)
  have bw: "\<not> forward" and it: "initTag" and ts: "ts = Some t" by fact+
  have inr: "0 \<le> i"
    using "1.prems"(1) bw by (cases "0 \<le> i") (simp_all add: scan_bwd_end)
  note step = scan_bwd_step [OF inr, of buf od cd True "Some t"]
  consider (isOpen) "startsWith buf od i"
    | (isClose) "\<not> startsWith buf od i" "startsWith buf cd i"
    | (plain) "\<not> startsWith buf od i" "\<not> startsWith buf cd i"
    by blast
  then show ?case
  proof cases
    case isClose
    let ?t = "t\<lparr>closingTagPos := closingTagPos t @ [i]\<rparr>"
    have lb: "loopBody buf od cd forward i initTag ts = Continue True (Some ?t)"
      using loopBody_bwd_close [OF isClose "1.prems"(10)] bw it ts by simp
    have sc: "scan buf od cd forward (i + (if forward then 1 else - 1)) True (Some ?t) = (True, r)"
      using "1.prems"(1) step lb bw it ts by simp
    have "\<exists>t'. r = Some t' \<and> resolved buf od cd t' \<and> innerEnd t' = innerEnd ?t \<and>
        0 \<le> parentStart t'"
      by (rule "1.IH" [OF _ lb sc bw]) (use "1.prems" bw inr in simp_all)
    then show ?thesis by simp
  next
    case isOpen
    note lb = loopBody_bwd_open [OF isOpen "1.prems"(10) "1.prems"(9)]
    show ?thesis
    proof (cases "butlast (closingTagPos t) = []")
      case True
      then have "r = Some (t\<lparr>openingTagPos := [], innerStart := i + int (length od),
                            parentStart := i, closingTagPos := [],
                            content := substring buf (i + int (length od)) (innerEnd t)\<rparr>)"
        using "1.prems"(1) step lb bw it ts by simp
      then show ?thesis
        using "1.prems" isOpen inr by (simp add: resolved_def)
    next
      case False
      let ?t = "t\<lparr>openingTagPos := [], innerStart := i + int (length od), parentStart := i,
                   closingTagPos := butlast (closingTagPos t)\<rparr>"
      have lb': "loopBody buf od cd forward i initTag ts = Continue True (Some ?t)"
        using lb False bw it ts by simp
      have sc: "scan buf od cd forward (i + (if forward then 1 else - 1)) True (Some ?t) = (True, r)"
        using "1.prems"(1) step lb' bw it ts by simp
      have "\<exists>t'. r = Some t' \<and> resolved buf od cd t' \<and> innerEnd t' = innerEnd ?t \<and>
          0 \<le> parentStart t'"
        by (rule "1.IH" [OF _ lb' sc bw]) (use "1.prems" bw inr False in simp_all)
      then show ?thesis by simp
    qed
  next
    case plain
    have lb: "loopBody buf od cd forward i initTag ts = Continue True (Some t)"
      using loopBody_plain [OF plain] it ts by simp
    have sc: "scan buf od cd forward (i + (if forward then 1 else - 1)) True (Some t) = (True, r)"
      using "1.prems"(1) step lb bw it ts by simp
    show ?thesis
      by (rule "1.IH" [OF _ lb sc bw]) (use "1.prems" bw inr in simp_all)
  qed
qed

lemma scan_bwd_searching:
  "scan buf od cd forward i initTag ts = (True, r) \<Longrightarrow> \<not> forward \<Longrightarrow> \<not> initTag \<Longrightarrow>
   \<exists>t'. r = Some t' \<and> resolved buf od cd t' \<and> innerEnd t' \<le> i \<and>
        (\<forall>k. innerEnd t' < k \<and> k \<le> i \<longrightarrow> startsWith buf od k \<or> \<not> startsWith buf cd k) \<and>
        0 \<le> parentStart t'"
proof (induction buf od cd forward i initTag ts rule: scan.induct)
  case (1 buf od cd forward i initTag ts)
  have bw: "\<not> forward" and it: "\<not> initTag" by fact+
  have inr: "0 \<le> i"
    using "1.prems"(1) bw by (cases "0 \<le> i") (simp_all add: scan_bwd_end)
  note step = scan_bwd_step [OF inr, of buf od cd False ts]
  show ?case
  proof (cases "\<not> startsWith buf od i \<and> startsWith buf cd i")
    case True
    let ?t = "\<lparr>parentStart = - 1, parentEnd = i + int (length cd), innerStart = - 1,
               innerEnd = i, content = [], openingTagPos = [], closingTagPos = [i]\<rparr>"
    have sc: "scan buf od cd False (i - 1) True (Some ?t) = (True, r)"
      using "1.prems"(1) step loopBody_bwd_init [of buf od i cd ts] True bw it by simp
    have "\<exists>t'. r = Some t' \<and> resolved buf od cd t' \<and> innerEnd t' = innerEnd ?t \<and>
        0 \<le> parentStart t'"
      by (rule scan_bwd_tracking [OF sc]) (use True in simp_all)
    then show ?thesis by auto
  next
    case False
    then have nc: "startsWith buf od i \<or> \<not> startsWith buf cd i" by blast
    have lb: "loopBody buf od cd forward i initTag ts = Continue False ts"
      using loopBody_bwd_before [OF nc] bw it by simp
    have sc: "scan buf od cd forward (i + (if forward then 1 else - 1)) False ts = (True, r)"
      using "1.prems"(1) step lb bw it by simp
    have "\<exists>t'. r = Some t' \<and> resolved buf od cd t' \<and>
        innerEnd t' \<le> i + (if forward then 1 else - 1) \<and>
        (\<forall>k. innerEnd t' < k \<and> k \<le> i + (if forward then 1 else - 1)
             \<longrightarrow> startsWith buf od k \<or> \<not> startsWith buf cd k) \<and>
        0 \<le> parentStart t'"
      by (rule "1.IH" [OF _ lb sc bw]) (use bw inr in simp_all)
    then obtain t' where t': "r = Some t'" "resolved buf od cd t'" "innerEnd t' \<le> i - 1"
        "\<forall>k. innerEnd t' < k \<and> k \<le> i - 1 \<longrightarrow> startsWith buf od k \<or> \<not> startsWith buf cd k"
        "0 \<le> parentStart t'"
      using bw by auto
    have "startsWith buf od k \<or> \<not> startsWith buf cd k" if "innerEnd t' < k" "k \<le> i" for k
    proof (cases "k = i")
      case True
      with nc show ?thesis by simp
    next
      case False
      with that t'(4) show ?thesis by simp
    qed
    with t' show ?thesis by auto
  qed
qed

subsection \<open>Stretches of text the loop passes over\<close>

lemma scan_fwd_skip_before:
  "i \<le> j \<Longrightarrow> j \<le> int (length buf) \<Longrightarrow>
   \<forall>k. i \<le> k \<and> k < j \<longrightarrow> \<not> startsWith buf od k \<Longrightarrow>
   scan buf od cd True i False ts = scan buf od cd True j False ts"
proof (induction "nat (j - i)" arbitrary: i)
  case 0
  then show ?case by simp
next
  case (Suc n)
  then have lt: "i < j" and inr: "i < int (length buf)" by linarith+
  have "\<not> startsWith buf od i" using Suc.prems(3) lt by simp
  then have "scan buf od cd True i False ts = scan buf od cd True (i + 1) False ts"
    by (simp add: scan_fwd_step [OF inr] loopBody_fwd_before)
  also have "\<dots> = scan buf od cd True j False ts"
    by (rule Suc.hyps(1)) (use Suc.hyps(2) Suc.prems lt in auto)
  finally show ?case .
qed

lemma scan_fwd_skip_plain:
  "i \<le> j \<Longrightarrow> j \<le> int (length buf) \<Longrightarrow>
   \<forall>k. i \<le> k \<and> k < j \<longrightarrow> \<not> startsWith buf od k \<and> \<not> startsWith buf cd k \<Longrightarrow>
   scan buf od cd True i it ts = scan buf od cd True j it ts"
proof (induction "nat (j - i)" arbitrary: i)
  case 0
  then show ?case by simp
next
  case (Suc n)
  then have lt: "i < j" and inr: "i < int (length buf)" by linarith+
  have "\<not> startsWith buf od i" "\<not> startsWith buf cd i" using Suc.prems(3) lt by simp_all
  then have "scan buf od cd True i it ts = scan buf od cd True (i + 1) it ts"
    by (simp add: scan_fwd_step [OF inr] loopBody_plain)
  also have "\<dots> = scan buf od cd True j it ts"
    by (rule Suc.hyps(1)) (use Suc.hyps(2) Suc.prems lt in auto)
  finally show ?case .
qed

lemma scan_bwd_skip_before:
  "j \<le> i \<Longrightarrow> - 1 \<le> j \<Longrightarrow>
   \<forall>k. j < k \<and> k \<le> i \<longrightarrow> startsWith buf od k \<or> \<not> startsWith buf cd k \<Longrightarrow>
   scan buf od cd False i False ts = scan buf od cd False j False ts"
proof (induction "nat (i - j)" arbitrary: i)
  case 0
  then show ?case by simp
next
  case (Suc n)
  then have lt: "j < i" and inr: "0 \<le> i" by linarith+
  have "startsWith buf od i \<or> \<not> startsWith buf cd i" using Suc.prems(3) lt by simp
  then have "scan buf od cd False i False ts = scan buf od cd False (i - 1) False ts"
    by (simp add: scan_bwd_step [OF inr] loopBody_bwd_before)
  also have "\<dots> = scan buf od cd False j False ts"
    by (rule Suc.hyps(1)) (use Suc.hyps(2) Suc.prems lt in auto)
  finally show ?case .
qed

lemma scan_bwd_skip_plain:
  "j \<le> i \<Longrightarrow> - 1 \<le> j \<Longrightarrow>
   \<forall>k. j < k \<and> k \<le> i \<longrightarrow> \<not> startsWith buf od k \<and> \<not> startsWith buf cd k \<Longrightarrow>
   scan buf od cd False i it ts = scan buf od cd False j it ts"
proof (induction "nat (i - j)" arbitrary: i)
  case 0
  then show ?case by simp
next
  case (Suc n)
  then have lt: "j < i" and inr: "0 \<le> i" by linarith+
  have "\<not> startsWith buf od i" "\<not> startsWith buf cd i" using Suc.prems(3) lt by simp_all
  then have "scan buf od cd False i it ts = scan buf od cd False (i - 1) it ts"
    by (simp add: scan_bwd_step [OF inr] loopBody_plain)
  also have "\<dots> = scan buf od cd False j it ts"
    by (rule Suc.hyps(1)) (use Suc.hyps(2) Suc.prems lt in auto)
  finally show ?case .
qed

subsection \<open>Delimiter occurrences\<close>

lemma matchPositions_iff:
  "k \<in> set (matchPositions buf d) \<longleftrightarrow> 0 \<le> k \<and> k < int (length buf) \<and> startsWith buf d k"
proof -
  have "k \<in> set (map int [0..<length buf]) \<longleftrightarrow> 0 \<le> k \<and> k < int (length buf)"
  proof
    assume "k \<in> set (map int [0..<length buf])"
    then show "0 \<le> k \<and> k < int (length buf)" by auto
  next
    assume "0 \<le> k \<and> k < int (length buf)"
    then have "nat k \<in> set [0..<length buf]" "int (nat k) = k" by auto
    then show "k \<in> set (map int [0..<length buf])" by (metis image_eqI set_map)
  qed
  then show ?thesis by (auto simp: matchPositions_def)
qed

lemma matchPositions_sorted: "sorted_wrt (<) (matchPositions buf d)"
proof -
  have "sorted_wrt (<) (map int [0..<length buf])"
    by (simp add: sorted_wrt_map)
  then show ?thesis
    unfolding matchPositions_def by (rule sorted_wrt_filter)
qed

lemma startsWith_in_range:
  "startsWith buf d k \<Longrightarrow> d \<noteq> [] \<Longrightarrow> k + int (length d) \<le> int (length buf)"
proof -
  assume a: "startsWith buf d k" and ne: "d \<noteq> []"
  let ?n = "nat (max 0 (min k (int (length buf))))"
  from a have "length (take (length d) (drop ?n buf)) = length d"
    by (simp add: startsWith_def)
  then have "length d \<le> length buf - ?n" by simp
  with ne show ?thesis by (cases "k \<le> int (length buf)") auto
qed

lemma startsWith_clamp: "startsWith buf d k = startsWith buf d (max 0 k)"
  by (simp add: startsWith_def max_def min_def)

section \<open>Properties of \<open>parse\<close>\<close>

subsection \<open>The wrap-around retry\<close>

lemma parse_retry_None:
  "tagStruct p = None \<Longrightarrow> parse ed p forward True = (False, p, ed)"
  by (simp add: parse.simps)

lemma parse_eq:
  "parse ed p forward wrapCheck =
     (if wrapCheck \<and> tagStruct p = None then (False, p, ed)
      else case scan (doc ed) (openingDelimiter p) (closingDelimiter p) forward
                  (cursorIndex ed forward) False (tagStruct p) of
             (True, r) \<Rightarrow> (True, p\<lparr>tagStruct := r\<rparr>, ed)
           | (False, r) \<Rightarrow>
               if r = None \<and> wrapAroundEnabled (settings p) \<and> \<not> wrapCheck
               then (False, p\<lparr>tagStruct := None\<rparr>,
                     setCursor ed (if forward then 0 else int (length (doc ed))))
               else (False, p\<lparr>tagStruct := None\<rparr>, ed))"
proof (cases "scan (doc ed) (openingDelimiter p) (closingDelimiter p) forward
                  (cursorIndex ed forward) False (tagStruct p)")
  case (Pair found r)
  show ?thesis
  proof (cases found)
    case True
    with Pair show ?thesis
      by (subst parse.simps) (simp add: getValue_def)
  next
    case False
    with Pair show ?thesis
      by (subst parse.simps)
         (cases forward; simp add: getValue_def offsetToPos_def parse_retry_None)
  qed
qed

lemma scan_true_Some:
  assumes "scan buf od cd forward i False ts = (True, r)"
  shows "\<exists>t. r = Some t \<and> resolved buf od cd t"
proof (cases forward)
  case True
  with scan_fwd_searching [OF assms] show ?thesis by auto
next
  case False
  with scan_bwd_searching [OF assms] show ?thesis by auto
qed

lemma parse_true_resolved:
  assumes "parse ed p forward wrapCheck = (True, p', ed')"
  shows "\<exists>t. tagStruct p' = Some t \<and>
             resolved (doc ed) (openingDelimiter p) (closingDelimiter p) t \<and>
             scan (doc ed) (openingDelimiter p) (closingDelimiter p) forward
               (cursorIndex ed forward) False (tagStruct p) = (True, Some t)"
proof (cases "scan (doc ed) (openingDelimiter p) (closingDelimiter p) forward
                  (cursorIndex ed forward) False (tagStruct p)")
  case (Pair found r)
  have found using assms Pair by (cases found) (auto simp: parse_eq split: if_splits)
  with Pair have sc: "scan (doc ed) (openingDelimiter p) (closingDelimiter p) forward
                  (cursorIndex ed forward) False (tagStruct p) = (True, r)" by simp
  from scan_true_Some [OF sc] obtain t
    where t: "r = Some t" "resolved (doc ed) (openingDelimiter p) (closingDelimiter p) t"
    by blast
  have "p' = p\<lparr>tagStruct := r\<rparr>" using assms sc by (auto simp: parse_eq split: if_splits)
  with t sc show ?thesis by simp
qed

lemma parse_true_in_range:
  assumes "parse ed p forward wrapCheck = (True, p', ed')"
  shows "\<exists>t. tagStruct p' = Some t \<and>
             resolved (doc ed) (openingDelimiter p) (closingDelimiter p) t \<and>
             (if forward then selTo ed else 0) \<le> parentStart t \<and>
             innerEnd t \<le> (if forward then int (length (doc ed)) - 1 else selFrom ed - 1)"
proof -
  have ci: "cursorIndex ed forward = (if forward then selTo ed else selFrom ed - 1)"
    by (simp add: cursorIndex_def posToOffset_def getCursorFrom_def getCursorTo_def)
  from parse_true_resolved [OF assms] obtain t
    where t: "tagStruct p' = Some t"
      and sc: "scan (doc ed) (openingDelimiter p) (closingDelimiter p) forward
               (cursorIndex ed forward) False (tagStruct p) = (True, Some t)" by blast
  show ?thesis
  proof (cases forward)
    case True
    from scan_fwd_searching [OF sc] True ci t show ?thesis by auto
  next
    case False
    from scan_bwd_searching [OF sc] False ci t show ?thesis by auto
  qed
qed

lemma parseWithLogger_unset: "parseWithLogger None ed p forward wrapCheck = Inl TypeError"
  by (simp add: parseWithLogger_def)

subsection \<open>Resolved tags and the order of their offsets\<close>

lemma resolved_ordered:
  assumes r: "resolved buf od cd t" and od: "od \<noteq> []" and cd: "cd \<noteq> []"
    and no: "noOverlap buf od cd"
  shows "parentStart t < innerStart t \<and> innerStart t \<le> innerEnd t \<and> innerEnd t < parentEnd t"
proof -
  from r have o: "startsWith buf od (parentStart t)"
    and ist: "innerStart t = parentStart t + int (length od)"
    and lt: "parentStart t < innerEnd t"
    and nc: "\<not> startsWith buf od (innerEnd t)"
    and c: "startsWith buf cd (innerEnd t)"
    and pe: "parentEnd t = innerEnd t + int (length cd)"
    by (simp_all add: resolved_def)
  let ?a = "max 0 (parentStart t)"
  have oa: "startsWith buf od ?a" using o startsWith_clamp by blast
  have lo: "0 < int (length od)" and lc: "0 < int (length cd)" using od cd by simp_all
  have a_hi: "?a < int (length buf)" using startsWith_in_range [OF oa od] lo by linarith
  have e_hi: "innerEnd t < int (length buf)" using startsWith_in_range [OF c cd] lc by linarith
  have e_lo: "0 < innerEnd t"
  proof (rule ccontr)
    assume "\<not> 0 < innerEnd t"
    then have "max 0 (innerEnd t) = 0" "?a = 0" using lt by auto
    with oa nc startsWith_clamp [of buf od "innerEnd t"] show False by simp
  qed
  have ne: "?a \<noteq> innerEnd t" using oa nc by auto
  have a_lt: "?a < innerEnd t" using lt e_lo ne by auto
  have "?a \<in> set (matchPositions buf od)" "innerEnd t \<in> set (matchPositions buf cd)"
    using oa c a_hi e_hi e_lo by (auto simp: matchPositions_iff)
  with no a_lt have "?a + int (length od) \<le> innerEnd t"
    unfolding noOverlap_def by blast
  then have "innerStart t \<le> innerEnd t" using ist by auto
  moreover have "parentStart t < innerStart t" using ist lo by linarith
  moreover have "innerEnd t < parentEnd t" using pe lc by linarith
  ultimately show ?thesis by simp
qed

subsection \<open>Texts with one region, and with one region nested in another\<close>

lemma matchPositions_single:
  assumes "matchPositions buf d = [a]"
  shows "0 \<le> a" "a < int (length buf)" "startsWith buf d a"
    "\<And>k. 0 \<le> k \<Longrightarrow> k < int (length buf) \<Longrightarrow> startsWith buf d k \<Longrightarrow> k = a"
proof -
  have "a \<in> set (matchPositions buf d)" using assms by simp
  then show "0 \<le> a" "a < int (length buf)" "startsWith buf d a"
    by (simp_all add: matchPositions_iff)
  fix k assume "0 \<le> k" "k < int (length buf)" "startsWith buf d k"
  then have "k \<in> set (matchPositions buf d)" by (simp add: matchPositions_iff)
  then show "k = a" using assms by simp
qed

lemma matchPositions_pair:
  assumes "matchPositions buf d = [a, b]"
  shows "0 \<le> a" "a < b" "b < int (length buf)" "startsWith buf d a" "startsWith buf d b"
    "\<And>k. 0 \<le> k \<Longrightarrow> k < int (length buf) \<Longrightarrow> startsWith buf d k \<Longrightarrow> k = a \<or> k = b"
proof -
  have "a \<in> set (matchPositions buf d)" "b \<in> set (matchPositions buf d)"
    using assms by simp_all
  then show "0 \<le> a" "b < int (length buf)" "startsWith buf d a" "startsWith buf d b"
    by (simp_all add: matchPositions_iff)
  show "a < b" using matchPositions_sorted [of buf d] assms by simp
  fix k assume "0 \<le> k" "k < int (length buf)" "startsWith buf d k"
  then have "k \<in> set (matchPositions buf d)" by (simp add: matchPositions_iff)
  then show "k = a \<or> k = b" using assms by simp
qed

lemma scan_fwd_single:
  assumes mo: "matchPositions buf od = [a]" and mc: "matchPositions buf cd = [c]"
    and ac: "a < c" and i: "0 \<le> i" "i \<le> a"
  shows "scan buf od cd True i False ts = (True, Some (regionTag buf od cd a c))"
proof -
  note o = matchPositions_single [OF mo] and cl = matchPositions_single [OF mc]
  let ?t0 = "\<lparr>parentStart = a, parentEnd = - 1, innerStart = a + int (length od),
               innerEnd = - 1, content = [], openingTagPos = [a], closingTagPos = []\<rparr>"
  have "\<forall>k. i \<le> k \<and> k < a \<longrightarrow> \<not> startsWith buf od k"
    using o i by (metis less_le_not_le order_trans order.strict_trans)
  from scan_fwd_skip_before [OF i(2) _ this]
  have "scan buf od cd True i False ts = scan buf od cd True a False ts"
    using o(2) by simp
  also have "\<dots> = scan buf od cd True (a + 1) True (Some ?t0)"
    by (simp add: scan_fwd_step [OF o(2)] loopBody_fwd_init [OF o(3)])
  also have "\<dots> = scan buf od cd True c True (Some ?t0)"
  proof (rule scan_fwd_skip_plain)
    show "a + 1 \<le> c" using ac by simp
    show "c \<le> int (length buf)" using cl(2) by simp
    show "\<forall>k. a + 1 \<le> k \<and> k < c \<longrightarrow> \<not> startsWith buf od k \<and> \<not> startsWith buf cd k"
    proof (intro allI impI)
      fix k assume k: "a + 1 \<le> k \<and> k < c"
      then have "0 \<le> k" "k < int (length buf)" "k \<noteq> a" "k \<noteq> c" using o(1) cl(2) by auto
      then show "\<not> startsWith buf od k \<and> \<not> startsWith buf cd k" using o(4) cl(4) by blast
    qed
  qed
  also have "\<dots> = (True, Some (regionTag buf od cd a c))"
  proof -
    have "\<not> startsWith buf od c" using o(4) [of c] cl(1,2) ac by auto
    from loopBody_fwd_close [OF this cl(3), of ?t0]
    show ?thesis by (simp add: scan_fwd_step [OF cl(2)] regionTag_def)
  qed
  finally show ?thesis .
qed

lemma scan_bwd_single:
  assumes mo: "matchPositions buf od = [a]" and mc: "matchPositions buf cd = [c]"
    and ac: "a < c" and i: "c \<le> i" "i < int (length buf)"
  shows "scan buf od cd False i False ts = (True, Some (regionTag buf od cd a c))"
proof -
  note o = matchPositions_single [OF mo] and cl = matchPositions_single [OF mc]
  let ?t0 = "\<lparr>parentStart = - 1, parentEnd = c + int (length cd), innerStart = - 1,
               innerEnd = c, content = [], openingTagPos = [], closingTagPos = [c]\<rparr>"
  have noc: "\<not> startsWith buf od c" using o(4) [of c] cl(1,2) ac by auto
  have "\<forall>k. c < k \<and> k \<le> i \<longrightarrow> startsWith buf od k \<or> \<not> startsWith buf cd k"
  proof (intro allI impI)
    fix k assume k: "c < k \<and> k \<le> i"
    then have "0 \<le> k" "k < int (length buf)" "k \<noteq> c" using cl(1) i by auto
    then show "startsWith buf od k \<or> \<not> startsWith buf cd k" using cl(4) by blast
  qed
  from scan_bwd_skip_before [OF i(1) _ this]
  have "scan buf od cd False i False ts = scan buf od cd False c False ts"
    using cl(1) by simp
  also have "\<dots> = scan buf od cd False (c - 1) True (Some ?t0)"
    by (simp add: scan_bwd_step [OF cl(1)] loopBody_bwd_init [OF noc cl(3)])
  also have "\<dots> = scan buf od cd False a True (Some ?t0)"
  proof (rule scan_bwd_skip_plain)
    show "a \<le> c - 1" using ac by simp
    show "- 1 \<le> a" using o(1) by simp
    show "\<forall>k. a < k \<and> k \<le> c - 1 \<longrightarrow> \<not> startsWith buf od k \<and> \<not> startsWith buf cd k"
    proof (intro allI impI)
      fix k assume k: "a < k \<and> k \<le> c - 1"
      then have "0 \<le> k" "k < int (length buf)" "k \<noteq> a" "k \<noteq> c" using o(1) cl(2) by auto
      then show "\<not> startsWith buf od k \<and> \<not> startsWith buf cd k" using o(4) cl(4) by blast
    qed
  qed
  also have "\<dots> = (True, Some (regionTag buf od cd a c))"
    using loopBody_bwd_open [OF o(3), of ?t0 cd]
    by (simp add: scan_bwd_step [OF o(1)] regionTag_def)
  finally show ?thesis .
qed

lemma scan_fwd_nested:
  assumes mo: "matchPositions buf od = [a1, a2]" and mc: "matchPositions buf cd = [c1, c2]"
    and ac: "a2 < c1" and i: "0 \<le> i" "i \<le> a1"
  shows "scan buf od cd True i False ts = (True, Some (regionTag buf od cd a1 c2))"
proof -
  note o = matchPositions_pair [OF mo] and cl = matchPositions_pair [OF mc]
  let ?t0 = "\<lparr>parentStart = a1, parentEnd = - 1, innerStart = a1 + int (length od),
               innerEnd = - 1, content = [], openingTagPos = [a1], closingTagPos = []\<rparr>"
  let ?t1 = "?t0\<lparr>openingTagPos := [a1, a2]\<rparr>"
  let ?t2 = "?t1\<lparr>closingTagPos := [], innerEnd := c1, parentEnd := c1 + int (length cd),
                 openingTagPos := [a1]\<rparr>"
  have len: "a1 < int (length buf)" "a2 < int (length buf)" "c1 < int (length buf)"
    "0 \<le> a2" "0 \<le> c1" "0 \<le> c2"
    using o(1,2) cl(2,3) ac by linarith+
  have plain: "\<not> startsWith buf od k \<and> \<not> startsWith buf cd k"
    if "0 \<le> k" "k < int (length buf)" "k \<noteq> a1" "k \<noteq> a2" "k \<noteq> c1" "k \<noteq> c2" for k
    using o(6) [of k] cl(6) [of k] that by blast
  have "\<forall>k. i \<le> k \<and> k < a1 \<longrightarrow> \<not> startsWith buf od k"
  proof (intro allI impI)
    fix k assume "i \<le> k \<and> k < a1"
    then have "0 \<le> k" "k < int (length buf)" "k \<noteq> a1" "k \<noteq> a2" using i o(2) len by auto
    then show "\<not> startsWith buf od k" using o(6) [of k] by blast
  qed
  from scan_fwd_skip_before [OF i(2) _ this]
  have "scan buf od cd True i False ts = scan buf od cd True a1 False ts"
    using len by simp
  also have "\<dots> = scan buf od cd True (a1 + 1) True (Some ?t0)"
    by (simp add: scan_fwd_step [OF len(1)] loopBody_fwd_init [OF o(4)])
  also have "\<dots> = scan buf od cd True a2 True (Some ?t0)"
  proof (rule scan_fwd_skip_plain)
    show "a1 + 1 \<le> a2" using o(2) by simp
    show "a2 \<le> int (length buf)" using len by simp
    show "\<forall>k. a1 + 1 \<le> k \<and> k < a2 \<longrightarrow> \<not> startsWith buf od k \<and> \<not> startsWith buf cd k"
      using plain o(1) len ac cl(2) by (intro allI impI) (rule plain; linarith)
  qed
  also have "\<dots> = scan buf od cd True (a2 + 1) True (Some ?t1)"
    using loopBody_fwd_open [OF o(5), of ?t0 cd]
    by (simp add: scan_fwd_step [OF len(2)])
  also have "\<dots> = scan buf od cd True c1 True (Some ?t1)"
  proof (rule scan_fwd_skip_plain)
    show "a2 + 1 \<le> c1" using ac by simp
    show "c1 \<le> int (length buf)" using len by simp
    show "\<forall>k. a2 + 1 \<le> k \<and> k < c1 \<longrightarrow> \<not> startsWith buf od k \<and> \<not> startsWith buf cd k"
      using o(1,2) len ac cl(2) by (intro allI impI) (rule plain; linarith)
  qed
  also have "\<dots> = scan buf od cd True (c1 + 1) True (Some ?t2)"
  proof -
    have "\<not> startsWith buf od c1" using o(6) [of c1] len o(2) ac by auto
    from loopBody_fwd_close [OF this cl(4), of ?t1]
    show ?thesis by (simp add: scan_fwd_step [OF len(3)])
  qed
  also have "\<dots> = scan buf od cd True c2 True (Some ?t2)"
  proof (rule scan_fwd_skip_plain)
    show "c1 + 1 \<le> c2" using cl(2) by simp
    show "c2 \<le> int (length buf)" using cl(3) by simp
    show "\<forall>k. c1 + 1 \<le> k \<and> k < c2 \<longrightarrow> \<not> startsWith buf od k \<and> \<not> startsWith buf cd k"
      using o(1,2) len ac cl(2,3) by (intro allI impI) (rule plain; linarith)
  qed
  also have "\<dots> = (True, Some (regionTag buf od cd a1 c2))"
  proof -
    have "\<not> startsWith buf od c2" using o(6) [of c2] len o(2) ac cl(2,3) by auto
    from loopBody_fwd_close [OF this cl(5), of ?t2]
    show ?thesis by (simp add: scan_fwd_step [OF cl(3)] regionTag_def)
  qed
  finally show ?thesis .
qed

section \<open>The claims\<close>

subsection \<open>C1: wrap-around\<close>

text \<open>
  Claim C1 says that with wrap-around enabled a forward parse whose cursor lies after the
  last region moves the scan to offset 0, retries once and finds the first region, and
  that with wrap-around disabled it reports no match. The retry is the recursive call
  \<^verbatim>\<open>this.parse(editor, true, true)\<close>; it is made only when \<open>tagStruct\<close> is null, and
  its own first statement returns false when \<open>wrapCheck\<close> is set and \<open>tagStruct\<close> is null
  (lemma \<open>parse_retry_None\<close>). So the retry never scans. On the text \<open>|<a>| b\<close> with the
  cursor at offset 6 and wrap-around enabled, the forward parse moves the cursor to
  offset 0 and returns false with no match state, although the region \<open>|<a>|\<close> starts at
  offset 0. With wrap-around disabled the same call returns false and leaves the cursor
  where it was.
\<close>

theorem parse_wrap_retry_finds_nothing:
  "parse \<lparr>doc = ''|<a>| b'', selFrom = 6, selTo = 6\<rparr>
     (newParser DEFAULT_SETTINGS ''|<'' ''>|'') True False =
   (False, newParser DEFAULT_SETTINGS ''|<'' ''>|'',
    \<lparr>doc = ''|<a>| b'', selFrom = 0, selTo = 0\<rparr>) \<and>
   parse \<lparr>doc = ''|<a>| b'', selFrom = 6, selTo = 6\<rparr>
     (newParser (DEFAULT_SETTINGS\<lparr>wrapAroundEnabled := False\<rparr>) ''|<'' ''>|'') True False =
   (False, newParser (DEFAULT_SETTINGS\<lparr>wrapAroundEnabled := False\<rparr>) ''|<'' ''>|'',
    \<lparr>doc = ''|<a>| b'', selFrom = 6, selTo = 6\<rparr>)"
  by code_simp

subsection \<open>C2: removing a tag\<close>

text \<open>
  Claim C2 says that tag removal replaces the outer span by the stored content and then
  clears the match state. \<open>acceptDefaultText\<close> does the replacement, but it never assigns
  \<open>tagStruct\<close>: on \<open>before |<X>| after\<close> the text becomes \<open>before X after\<close>, and the
  content and position queries still answer with the old tag (content \<open>X\<close>, outer span
  7..12, inner span 9..10), whose offsets no longer fit the text.
\<close>

theorem acceptDefaultText_keeps_match_state:
  "(case parse \<lparr>doc = ''before |<X>| after'', selFrom = 0, selTo = 0\<rparr>
       (newParser DEFAULT_SETTINGS ''|<'' ''>|'') True False of
      (found, p1, ed1) \<Rightarrow>
        (case acceptDefaultText ed1 p1 of
           (removed, p2, ed2) \<Rightarrow>
             found \<and> removed \<and> doc ed2 = ''before X after'' \<and>
             getTagContent p2 = Some ''X'' \<and> getTagPosition p2 = Some (7, 12) \<and>
             getInnerTagPosition p2 = Some (9, 10)))"
  by code_simp

subsection \<open>C3: where a scan starts\<close>

text \<open>
  Claim C3: the first position the scanner tests is the offset just after the selection
  when scanning forward, and one position before the selection start when scanning
  backward. The selection covers the offsets \<open>selFrom\<close> up to, not including, \<open>selTo\<close>, so
  the first offset after it is \<open>selTo\<close>. The loop variable starts at \<open>cursorIndex\<close>, which
  is \<open>selTo\<close> forward and \<open>selFrom - 1\<close> backward. Its effect on every successful parse:
  forward, the tag starts at the first offset at or after \<open>selTo\<close> that carries the opening
  delimiter; backward, the tag's closing delimiter is the first one met walking down from
  \<open>selFrom - 1\<close>.
\<close>

theorem parse_scan_origin:
  assumes "parse ed p forward wrapCheck = (True, p', ed')"
  shows "cursorIndex ed forward = (if forward then selTo ed else selFrom ed - 1) \<and>
    (\<exists>t. tagStruct p' = Some t \<and>
      (if forward
       then selTo ed \<le> parentStart t \<and>
            startsWith (doc ed) (openingDelimiter p) (parentStart t) \<and>
            (\<forall>k. selTo ed \<le> k \<and> k < parentStart t
                 \<longrightarrow> \<not> startsWith (doc ed) (openingDelimiter p) k)
       else innerEnd t \<le> selFrom ed - 1 \<and>
            \<not> startsWith (doc ed) (openingDelimiter p) (innerEnd t) \<and>
            startsWith (doc ed) (closingDelimiter p) (innerEnd t) \<and>
            (\<forall>k. innerEnd t < k \<and> k \<le> selFrom ed - 1
                 \<longrightarrow> startsWith (doc ed) (openingDelimiter p) k \<or>
                     \<not> startsWith (doc ed) (closingDelimiter p) k)))"
proof -
  have ci: "cursorIndex ed forward = (if forward then selTo ed else selFrom ed - 1)"
    by (simp add: cursorIndex_def posToOffset_def getCursorFrom_def getCursorTo_def)
  from parse_true_resolved [OF assms] obtain t
    where t: "tagStruct p' = Some t"
      and sc: "scan (doc ed) (openingDelimiter p) (closingDelimiter p) forward
               (cursorIndex ed forward) False (tagStruct p) = (True, Some t)" by blast
  show ?thesis
  proof (cases forward)
    case True
    from scan_fwd_searching [OF sc] True ci
    have "resolved (doc ed) (openingDelimiter p) (closingDelimiter p) t"
      "selTo ed \<le> parentStart t"
      "\<forall>k. selTo ed \<le> k \<and> k < parentStart t \<longrightarrow> \<not> startsWith (doc ed) (openingDelimiter p) k"
      by auto
    with t ci True show ?thesis by (simp add: resolved_def)
  next
    case False
    from scan_bwd_searching [OF sc] False ci
    have "resolved (doc ed) (openingDelimiter p) (closingDelimiter p) t"
      "innerEnd t \<le> selFrom ed - 1"
      "\<forall>k. innerEnd t < k \<and> k \<le> selFrom ed - 1 \<longrightarrow>
           startsWith (doc ed) (openingDelimiter p) k \<or> \<not> startsWith (doc ed) (closingDelimiter p) k"
      by auto
    with t ci False show ?thesis by (simp add: resolved_def)
  qed
qed

text \<open>Both directions on \<open>x|<a>| y\<close>, with a selection before and after the region.\<close>

theorem parse_scan_origin_witness:
  "fst (parse \<lparr>doc = ''x|<a>| y'', selFrom = 0, selTo = 1\<rparr>
          (newParser DEFAULT_SETTINGS ''|<'' ''>|'') True False) \<and>
   cursorIndex \<lparr>doc = ''x|<a>| y'', selFrom = 0, selTo = 1\<rparr> True = 1 \<and>
   fst (parse \<lparr>doc = ''x|<a>| y'', selFrom = 7, selTo = 8\<rparr>
          (newParser DEFAULT_SETTINGS ''|<'' ''>|'') False False) \<and>
   cursorIndex \<lparr>doc = ''x|<a>| y'', selFrom = 7, selTo = 8\<rparr> False = 6"
proof -
  let ?e1 = "\<lparr>doc = ''x|<a>| y'', selFrom = 0, selTo = 1\<rparr>"
  let ?e2 = "\<lparr>doc = ''x|<a>| y'', selFrom = 7, selTo = 8\<rparr>"
  let ?p = "newParser DEFAULT_SETTINGS ''|<'' ''>|''"
  have f1: "fst (parse ?e1 ?p True False)" and f2: "fst (parse ?e2 ?p False False)"
    by code_simp+
  have r1: "parse ?e1 ?p True False =
      (True, fst (snd (parse ?e1 ?p True False)), snd (snd (parse ?e1 ?p True False)))"
    using f1 by (simp add: prod_eq_iff)
  have r2: "parse ?e2 ?p False False =
      (True, fst (snd (parse ?e2 ?p False False)), snd (snd (parse ?e2 ?p False False)))"
    using f2 by (simp add: prod_eq_iff)
  from parse_scan_origin [OF r1] parse_scan_origin [OF r2] f1 f2
  show ?thesis by simp
qed

subsection \<open>C4: changing a delimiter\<close>

text \<open>
  Claim C4 says that \<open>setOpeningDelimiter\<close> and \<open>setClosingDelimiter\<close> clear a resolved
  match state. Both setters assign the delimiter only. After a successful parse of
  \<open>|<a>| b\<close>, changing the opening delimiter leaves the content query answering \<open>a\<close>, and
  changing the closing delimiter leaves the position query answering 0..5.
\<close>

theorem setDelimiter_keeps_match_state:
  "getTagContent (setOpeningDelimiter ''[['' (fst (snd (
     parse \<lparr>doc = ''|<a>| b'', selFrom = 0, selTo = 0\<rparr>
       (newParser DEFAULT_SETTINGS ''|<'' ''>|'') True False)))) = Some ''a'' \<and>
   getTagPosition (setClosingDelimiter '']]'' (fst (snd (
     parse \<lparr>doc = ''|<a>| b'', selFrom = 0, selTo = 0\<rparr>
       (newParser DEFAULT_SETTINGS ''|<'' ''>|'') True False)))) = Some (0, 5)"
  by code_simp

subsection \<open>C5: the order of the four offsets\<close>

text \<open>
  Claim C5, as amended: for every text and every pair of non-empty delimiters such that
  no closing delimiter begins inside an occurrence of the opening delimiter, whenever a
  parse call in either direction returns true, the match state satisfies
  \<open>parentStart < innerStart \<le> innerEnd < parentEnd\<close>.
\<close>

theorem parse_true_offsets_ordered:
  assumes "parse ed p forward wrapCheck = (True, p', ed')"
    and "openingDelimiter p \<noteq> []" and "closingDelimiter p \<noteq> []"
    and "noOverlap (doc ed) (openingDelimiter p) (closingDelimiter p)"
  shows "\<exists>t. tagStruct p' = Some t \<and> parentStart t < innerStart t \<and>
             innerStart t \<le> innerEnd t \<and> innerEnd t < parentEnd t"
proof -
  from parse_true_resolved [OF assms(1)] obtain t
    where "tagStruct p' = Some t"
      "resolved (doc ed) (openingDelimiter p) (closingDelimiter p) t" by blast
  with resolved_ordered [OF _ assms(2,3,4)] show ?thesis by blast
qed

theorem parse_true_offsets_ordered_witness:
  "noOverlap ''x|<a>|'' ''|<'' ''>|'' \<and>
   fst (parse \<lparr>doc = ''x|<a>|'', selFrom = 0, selTo = 0\<rparr>
          (newParser DEFAULT_SETTINGS ''|<'' ''>|'') True False) \<and>
   getTagPosition (fst (snd (parse \<lparr>doc = ''x|<a>|'', selFrom = 0, selTo = 0\<rparr>
          (newParser DEFAULT_SETTINGS ''|<'' ''>|'') True False))) = Some (1, 6) \<and>
   getInnerTagPosition (fst (snd (parse \<lparr>doc = ''x|<a>|'', selFrom = 0, selTo = 0\<rparr>
          (newParser DEFAULT_SETTINGS ''|<'' ''>|'') True False))) = Some (3, 4)"
proof -
  let ?ed = "\<lparr>doc = ''x|<a>|'', selFrom = 0, selTo = 0\<rparr>"
  let ?p = "newParser DEFAULT_SETTINGS ''|<'' ''>|''"
  have no: "noOverlap ''x|<a>|'' ''|<'' ''>|''" by code_simp
  have f: "fst (parse ?ed ?p True False)" by code_simp
  have run: "parse ?ed ?p True False =
      (True, fst (snd (parse ?ed ?p True False)), snd (snd (parse ?ed ?p True False)))"
    using f by (simp add: prod_eq_iff)
  have od: "openingDelimiter ?p \<noteq> []" and cd: "closingDelimiter ?p \<noteq> []"
    by (simp_all add: newParser_def)
  have no': "noOverlap (doc ?ed) (openingDelimiter ?p) (closingDelimiter ?p)"
    using no by (simp add: newParser_def)
  have pos: "map_option parentStart (tagStruct (fst (snd (parse ?ed ?p True False)))) = Some 1"
    "map_option parentEnd (tagStruct (fst (snd (parse ?ed ?p True False)))) = Some 6"
    "map_option innerStart (tagStruct (fst (snd (parse ?ed ?p True False)))) = Some 3"
    "map_option innerEnd (tagStruct (fst (snd (parse ?ed ?p True False)))) = Some 4"
    by code_simp+
  from parse_true_offsets_ordered [OF run od cd no'] obtain t
    where "tagStruct (fst (snd (parse ?ed ?p True False))) = Some t" by blast
  with pos no f show ?thesis
    by (simp add: getTagPosition_def getInnerTagPosition_def)
qed

text \<open>
  Without the condition on the delimiters the claim fails. With the opening delimiter
  \<open>ab\<close> and the closing delimiter \<open>b\<close>, the text \<open>ab\<close> carries the opening delimiter at
  offset 0 and the closing one at offset 1, inside it. The forward parse returns true
  with \<open>innerStart = 2\<close> and \<open>innerEnd = 1\<close>.
\<close>

theorem parse_true_overlapping_delimiters:
  "fst (parse \<lparr>doc = ''ab'', selFrom = 0, selTo = 0\<rparr>
     (newParser (DEFAULT_SETTINGS\<lparr>openingTagDelimiter := ''ab'', closingTagDelimiter := ''b''\<rparr>)
        ''ab'' ''b'') True False) \<and>
   getTagPosition (fst (snd (parse \<lparr>doc = ''ab'', selFrom = 0, selTo = 0\<rparr>
     (newParser (DEFAULT_SETTINGS\<lparr>openingTagDelimiter := ''ab'', closingTagDelimiter := ''b''\<rparr>)
        ''ab'' ''b'') True False))) = Some (0, 2) \<and>
   getInnerTagPosition (fst (snd (parse \<lparr>doc = ''ab'', selFrom = 0, selTo = 0\<rparr>
     (newParser (DEFAULT_SETTINGS\<lparr>openingTagDelimiter := ''ab'', closingTagDelimiter := ''b''\<rparr>)
        ''ab'' ''b'') True False))) = Some (2, 1)"
  by code_simp

subsection \<open>C6: a single region\<close>

text \<open>
  Claim C6: in a text with exactly one well-formed pair, that is, the opening delimiter
  matches at one offset \<open>a\<close> only, the closing delimiter at one offset \<open>c\<close> only, and the
  opening delimiter ends at or before \<open>c\<close>, a forward parse from any offset up to \<open>a\<close>
  returns true with \<open>parentStart = a\<close> and \<open>parentEnd\<close> just past the closing delimiter.
\<close>

theorem parse_forward_single_region:
  assumes "matchPositions (doc ed) (openingDelimiter p) = [a]"
    and "matchPositions (doc ed) (closingDelimiter p) = [c]"
    and "a + int (length (openingDelimiter p)) \<le> c"
    and "openingDelimiter p \<noteq> []"
    and "0 \<le> selTo ed" and "selTo ed \<le> a"
  shows "\<exists>t. parse ed p True False = (True, p\<lparr>tagStruct := Some t\<rparr>, ed) \<and>
             parentStart t = a \<and>
             parentEnd t = c + int (length (closingDelimiter p)) \<and>
             innerStart t = a + int (length (openingDelimiter p)) \<and>
             innerEnd t = c \<and>
             content t = substring (doc ed) (a + int (length (openingDelimiter p))) c"
proof -
  have ac: "a < c" using assms(3,4) by (cases "openingDelimiter p") auto
  have ci: "cursorIndex ed True = selTo ed"
    by (simp add: cursorIndex_def posToOffset_def getCursorTo_def)
  from scan_fwd_single [OF assms(1,2) ac assms(5,6)] ci
  have "parse ed p True False =
          (True, p\<lparr>tagStruct := Some (regionTag (doc ed) (openingDelimiter p)
                                        (closingDelimiter p) a c)\<rparr>, ed)"
    by (simp add: parse_eq)
  then show ?thesis
    by (intro exI [of _ "regionTag (doc ed) (openingDelimiter p) (closingDelimiter p) a c"])
       (simp add: regionTag_def)
qed

theorem parse_forward_single_region_witness:
  "matchPositions ''a |<X>| b'' ''|<'' = [2] \<and> matchPositions ''a |<X>| b'' ''>|'' = [5] \<and>
   getTagPosition (fst (snd (parse \<lparr>doc = ''a |<X>| b'', selFrom = 0, selTo = 1\<rparr>
          (newParser DEFAULT_SETTINGS ''|<'' ''>|'') True False))) = Some (2, 7)"
proof -
  let ?e = "\<lparr>doc = ''a |<X>| b'', selFrom = 0, selTo = 1\<rparr>"
  let ?p = "newParser DEFAULT_SETTINGS ''|<'' ''>|''"
  have mo: "matchPositions ''a |<X>| b'' ''|<'' = [2]"
    and mc: "matchPositions ''a |<X>| b'' ''>|'' = [5]" by code_simp+
  have "\<exists>t. parse ?e ?p True False = (True, ?p\<lparr>tagStruct := Some t\<rparr>, ?e) \<and>
             parentStart t = 2 \<and>
             parentEnd t = 5 + int (length (closingDelimiter ?p)) \<and>
             innerStart t = 2 + int (length (openingDelimiter ?p)) \<and>
             innerEnd t = 5 \<and>
             content t = substring (doc ?e) (2 + int (length (openingDelimiter ?p))) 5"
    by (rule parse_forward_single_region) (simp_all add: newParser_def mo mc)
  then show ?thesis using mo mc by (auto simp: getTagPosition_def newParser_def)
qed

subsection \<open>C7: nested regions\<close>

text \<open>
  Claim C7: in a text of the shape O O C C, that is, the opening delimiter matches at
  exactly two offsets \<open>a1 < a2\<close>, the closing delimiter at exactly two offsets
  \<open>c1 < c2\<close>, and \<open>a2 < c1\<close>, a forward parse from offset 0 (or from any offset up to
  \<open>a1\<close>) resolves the outer region: \<open>parentStart = a1\<close> and \<open>parentEnd\<close> is just past
  the closing delimiter at \<open>c2\<close>.
\<close>

theorem parse_forward_nested_outer:
  assumes "matchPositions (doc ed) (openingDelimiter p) = [a1, a2]"
    and "matchPositions (doc ed) (closingDelimiter p) = [c1, c2]"
    and "a2 < c1"
    and "0 \<le> selTo ed" and "selTo ed \<le> a1"
  shows "\<exists>t. parse ed p True False = (True, p\<lparr>tagStruct := Some t\<rparr>, ed) \<and>
             parentStart t = a1 \<and>
             parentEnd t = c2 + int (length (closingDelimiter p)) \<and>
             innerStart t = a1 + int (length (openingDelimiter p)) \<and>
             innerEnd t = c2 \<and>
             content t = substring (doc ed) (a1 + int (length (openingDelimiter p))) c2"
proof -
  have ci: "cursorIndex ed True = selTo ed"
    by (simp add: cursorIndex_def posToOffset_def getCursorTo_def)
  from scan_fwd_nested [OF assms(1,2,3,4,5)] ci
  have "parse ed p True False =
          (True, p\<lparr>tagStruct := Some (regionTag (doc ed) (openingDelimiter p)
                                        (closingDelimiter p) a1 c2)\<rparr>, ed)"
    by (simp add: parse_eq)
  then show ?thesis
    by (intro exI [of _ "regionTag (doc ed) (openingDelimiter p) (closingDelimiter p) a1 c2"])
       (simp add: regionTag_def)
qed

theorem parse_forward_nested_outer_witness:
  "matchPositions ''|<a|<b>|c>|'' ''|<'' = [0, 3] \<and>
   matchPositions ''|<a|<b>|c>|'' ''>|'' = [6, 9] \<and>
   getTagPosition (fst (snd (parse \<lparr>doc = ''|<a|<b>|c>|'', selFrom = 0, selTo = 0\<rparr>
          (newParser DEFAULT_SETTINGS ''|<'' ''>|'') True False))) = Some (0, 11)"
proof -
  let ?e = "\<lparr>doc = ''|<a|<b>|c>|'', selFrom = 0, selTo = 0\<rparr>"
  let ?p = "newParser DEFAULT_SETTINGS ''|<'' ''>|''"
  have mo: "matchPositions ''|<a|<b>|c>|'' ''|<'' = [0, 3]"
    and mc: "matchPositions ''|<a|<b>|c>|'' ''>|'' = [6, 9]" by code_simp+
  have "\<exists>t. parse ?e ?p True False = (True, ?p\<lparr>tagStruct := Some t\<rparr>, ?e) \<and>
             parentStart t = 0 \<and>
             parentEnd t = 9 + int (length (closingDelimiter ?p)) \<and>
             innerStart t = 0 + int (length (openingDelimiter ?p)) \<and>
             innerEnd t = 9 \<and>
             content t = substring (doc ?e) (0 + int (length (openingDelimiter ?p))) 9"
    by (rule parse_forward_nested_outer [where ?a2.0 = 3 and ?c1.0 = 6])
       (simp_all add: newParser_def mo mc)
  then show ?thesis using mo mc by (auto simp: getTagPosition_def newParser_def)
qed

subsection \<open>C8: forward, then backward\<close>

text \<open>
  Claim C8, as amended: in a text with exactly one region, after a successful forward
  parse, a backward parse with the cursor placed at the end of the found region (offset
  \<open>parentEnd\<close>, nothing selected) returns true and resolves the same region, with the
  same \<open>parentStart\<close> and \<open>parentEnd\<close>.
\<close>

theorem forward_then_backward_from_region_end:
  assumes mo: "matchPositions (doc ed) (openingDelimiter p) = [a]"
    and mc: "matchPositions (doc ed) (closingDelimiter p) = [c]"
    and ac: "a + int (length (openingDelimiter p)) \<le> c"
    and od: "openingDelimiter p \<noteq> []" and cd: "closingDelimiter p \<noteq> []"
    and wf: "wfEditor ed"
    and fwd: "parse ed p True wrapCheck = (True, p1, ed1)"
  shows "\<exists>t1 t2 p2 ed2. tagStruct p1 = Some t1 \<and>
           parse (setCursor ed1 (offsetToPos ed1 (parentEnd t1))) p1 False False =
             (True, p2, ed2) \<and>
           tagStruct p2 = Some t2 \<and>
           parentStart t2 = parentStart t1 \<and> parentEnd t2 = parentEnd t1"
proof -
  let ?buf = "doc ed" and ?od = "openingDelimiter p" and ?cd = "closingDelimiter p"
  note o = matchPositions_single [OF mo] and cl = matchPositions_single [OF mc]
  have lt: "a < c" using ac od by (cases ?od) auto
  have lc: "0 < int (length ?cd)" using cd by simp
  have ci: "cursorIndex ed True = selTo ed"
    by (simp add: cursorIndex_def posToOffset_def getCursorTo_def)
  from parse_true_resolved [OF fwd] obtain t1
    where t1: "tagStruct p1 = Some t1"
      and sc: "scan ?buf ?od ?cd True (cursorIndex ed True) False (tagStruct p) = (True, Some t1)"
    by blast
  have p1: "p1 = p\<lparr>tagStruct := Some t1\<rparr>" and ed1: "ed1 = ed"
    using fwd sc by (auto simp: parse_eq split: if_splits)
  from scan_fwd_searching [OF sc] ci
  have res: "resolved ?buf ?od ?cd t1" and lo: "selTo ed \<le> parentStart t1"
    and hi: "innerEnd t1 < int (length ?buf)" by auto
  from res have fields: "startsWith ?buf ?od (parentStart t1)" "parentStart t1 < innerEnd t1"
      "startsWith ?buf ?cd (innerEnd t1)" "parentEnd t1 = innerEnd t1 + int (length ?cd)"
    by (simp_all add: resolved_def)
  have nonneg: "0 \<le> parentStart t1" using wf lo by (simp add: wfEditor_def)
  have ps: "parentStart t1 = a" using o(4) [OF nonneg _ fields(1)] fields(2) hi by simp
  have ie: "innerEnd t1 = c" using cl(4) [OF _ hi fields(3)] fields(2) nonneg by simp
  have pe: "parentEnd t1 = c + int (length ?cd)" using fields(4) ie by simp
  have fit: "c + int (length ?cd) \<le> int (length ?buf)"
    using startsWith_in_range [OF cl(3) cd] .
  let ?ed2 = "setCursor ed1 (offsetToPos ed1 (parentEnd t1))"
  have ed2: "doc ?ed2 = ?buf" "cursorIndex ?ed2 False = c + int (length ?cd) - 1"
    using fit pe cl(1) ed1
    by (simp_all add: setCursor_def offsetToPos_def cursorIndex_def posToOffset_def
          getCursorFrom_def)
  have "scan ?buf ?od ?cd False (c + int (length ?cd) - 1) False (Some t1) =
          (True, Some (regionTag ?buf ?od ?cd a c))"
    by (rule scan_bwd_single [OF mo mc lt]) (use lc fit in linarith)+
  then have "parse ?ed2 p1 False False =
          (True, p1\<lparr>tagStruct := Some (regionTag ?buf ?od ?cd a c)\<rparr>, ?ed2)"
    using ed2 p1 by (simp add: parse_eq)
  moreover have "parentStart (regionTag ?buf ?od ?cd a c) = parentStart t1"
    "parentEnd (regionTag ?buf ?od ?cd a c) = parentEnd t1"
    using ps pe by (simp_all add: regionTag_def)
  ultimately show ?thesis using t1 by (intro exI conjI) (assumption | simp)+
qed

theorem forward_then_backward_from_region_end_witness:
  "matchPositions ''a |<X>| b'' ''|<'' = [2] \<and> matchPositions ''a |<X>| b'' ''>|'' = [5] \<and>
   wfEditor \<lparr>doc = ''a |<X>| b'', selFrom = 0, selTo = 0\<rparr> \<and>
   fst (parse \<lparr>doc = ''a |<X>| b'', selFrom = 0, selTo = 0\<rparr>
          (newParser DEFAULT_SETTINGS ''|<'' ''>|'') True False) \<and>
   (\<exists>t1 t2 p2 ed2.
      tagStruct (fst (snd (parse \<lparr>doc = ''a |<X>| b'', selFrom = 0, selTo = 0\<rparr>
          (newParser DEFAULT_SETTINGS ''|<'' ''>|'') True False))) = Some t1 \<and>
      parse (setCursor \<lparr>doc = ''a |<X>| b'', selFrom = 0, selTo = 0\<rparr> (parentEnd t1))
        (fst (snd (parse \<lparr>doc = ''a |<X>| b'', selFrom = 0, selTo = 0\<rparr>
          (newParser DEFAULT_SETTINGS ''|<'' ''>|'') True False))) False False = (True, p2, ed2) \<and>
      tagStruct p2 = Some t2 \<and> parentStart t2 = parentStart t1 \<and> parentEnd t2 = parentEnd t1)"
proof -
  let ?e = "\<lparr>doc = ''a |<X>| b'', selFrom = 0, selTo = 0\<rparr>"
  let ?p = "newParser DEFAULT_SETTINGS ''|<'' ''>|''"
  have mo: "matchPositions ''a |<X>| b'' ''|<'' = [2]"
    and mc: "matchPositions ''a |<X>| b'' ''>|'' = [5]" by code_simp+
  have wf: "wfEditor ?e" by (simp add: wfEditor_def)
  have f: "fst (parse ?e ?p True False)" by code_simp
  have e1: "snd (snd (parse ?e ?p True False)) = ?e" by code_simp
  have r: "parse ?e ?p True False = (True, fst (snd (parse ?e ?p True False)), ?e)"
    using f e1 by (simp add: prod_eq_iff)
  have "\<exists>t1 t2 p2 ed2. tagStruct (fst (snd (parse ?e ?p True False))) = Some t1 \<and>
           parse (setCursor ?e (offsetToPos ?e (parentEnd t1)))
             (fst (snd (parse ?e ?p True False))) False False = (True, p2, ed2) \<and>
           tagStruct p2 = Some t2 \<and>
           parentStart t2 = parentStart t1 \<and> parentEnd t2 = parentEnd t1"
    by (rule forward_then_backward_from_region_end [where a = 2 and c = 5, OF _ _ _ _ _ wf r])
       (simp_all add: newParser_def mo mc)
  then obtain t1 t2 p2 ed2 where
    t: "tagStruct (fst (snd (parse ?e ?p True False))) = Some t1"
      "parse (setCursor ?e (offsetToPos ?e (parentEnd t1)))
             (fst (snd (parse ?e ?p True False))) False False = (True, p2, ed2)"
      "tagStruct p2 = Some t2" "parentStart t2 = parentStart t1" "parentEnd t2 = parentEnd t1"
    by blast
  have "map_option parentEnd (tagStruct (fst (snd (parse ?e ?p True False)))) = Some 7"
    by code_simp
  with t(1) have "parentEnd t1 = 7" by simp
  then have "offsetToPos ?e (parentEnd t1) = parentEnd t1" by (simp add: offsetToPos_def)
  with t mo mc wf f show ?thesis by auto
qed

text \<open>
  When the found region is highlighted instead, the selection spans
  \<open>parentStart..parentEnd\<close> and the backward scan starts at \<open>parentStart - 1\<close>, before the
  only region of the text: on \<open>a |<X>| b\<close> with wrap-around disabled the backward parse
  returns false.
\<close>

theorem backward_after_highlight_finds_nothing:
  "(case parse \<lparr>doc = ''a |<X>| b'', selFrom = 0, selTo = 0\<rparr>
       (newParser (DEFAULT_SETTINGS\<lparr>wrapAroundEnabled := False\<rparr>) ''|<'' ''>|'') True False of
      (found, p1, ed1) \<Rightarrow>
        (case highlightTag ed1 p1 of
           (shown, ed2) \<Rightarrow>
             found \<and> shown \<and> getTagPosition p1 = Some (2, 7) \<and>
             selFrom ed2 = 2 \<and> selTo ed2 = 7 \<and>
             \<not> fst (parse ed2 p1 False False)))"
  by code_simp

subsection \<open>C9: no match is the value false with the match state cleared\<close>

text \<open>
  Claim C9: a parse call that finds no region returns normally with the boolean false,
  raising no exception, and the match state is null after the call. For every parser
  whose logger is set, every editor, parser state, direction and wrap flag, the call
  returns a value and raises nothing. The boolean is true exactly when the call is not
  cut short by the retry guard and its loop executes \<^verbatim>\<open>return true\<close>; in every other
  case, that is, whenever the call finds no region, it is false, the match state is null
  and the position and content queries report absence. A true result carries a resolved
  tag whose delimiters lie in the scanned part of the text, so the call returns false
  whenever the scanned part holds no opening delimiter with a closing delimiter after it.
\<close>

theorem parse_no_region_returns_false:
  "\<exists>b p' ed'.
     parseWithLogger (Some l) ed p forward wrapCheck = Inr (b, p', ed') \<and>
     (b = (\<not> (wrapCheck \<and> tagStruct p = None) \<and>
           fst (scan (doc ed) (openingDelimiter p) (closingDelimiter p) forward
                  (cursorIndex ed forward) False (tagStruct p)))) \<and>
     (\<not> b \<longrightarrow> tagStruct p' = None \<and> getTagPosition p' = None \<and>
             getTagContent p' = None \<and> getInnerTagPosition p' = None) \<and>
     (b \<longrightarrow> (\<exists>t. tagStruct p' = Some t \<and>
                 resolved (doc ed) (openingDelimiter p) (closingDelimiter p) t \<and>
                 (if forward then selTo ed else 0) \<le> parentStart t \<and>
                 innerEnd t \<le> (if forward then int (length (doc ed)) - 1
                                else selFrom ed - 1))) \<and>
     ((\<forall>i j. (if forward then selTo ed else 0) \<le> i \<and> i < j \<and>
             j \<le> (if forward then int (length (doc ed)) - 1 else selFrom ed - 1) \<and>
             startsWith (doc ed) (openingDelimiter p) i
             \<longrightarrow> \<not> startsWith (doc ed) (closingDelimiter p) j) \<longrightarrow> \<not> b)"
proof (cases "scan (doc ed) (openingDelimiter p) (closingDelimiter p) forward
                  (cursorIndex ed forward) False (tagStruct p)")
  case (Pair found r)
  obtain b p' ed' where res: "parse ed p forward wrapCheck = (b, p', ed')"
    by (cases "parse ed p forward wrapCheck") auto
  have call: "parseWithLogger (Some l) ed p forward wrapCheck = Inr (b, p', ed')"
    using res by (simp add: parseWithLogger_def)
  have b: "b = (\<not> (wrapCheck \<and> tagStruct p = None) \<and> found)"
    using res Pair by (cases found) (auto simp: parse_eq split: if_splits)
  have cleared: "tagStruct p' = None" if "\<not> b"
    using that res Pair by (cases found) (auto simp: parse_eq split: if_splits)
  have found_tag: "\<exists>t. tagStruct p' = Some t \<and>
      resolved (doc ed) (openingDelimiter p) (closingDelimiter p) t \<and>
      (if forward then selTo ed else 0) \<le> parentStart t \<and>
      innerEnd t \<le> (if forward then int (length (doc ed)) - 1 else selFrom ed - 1)" if "b"
  proof -
    from that res have "parse ed p forward wrapCheck = (True, p', ed')" by simp
    from parse_true_in_range [OF this] show ?thesis .
  qed
  have none: "\<not> b"
    if no: "\<forall>i j. (if forward then selTo ed else 0) \<le> i \<and> i < j \<and>
             j \<le> (if forward then int (length (doc ed)) - 1 else selFrom ed - 1) \<and>
             startsWith (doc ed) (openingDelimiter p) i
             \<longrightarrow> \<not> startsWith (doc ed) (closingDelimiter p) j"
  proof
    assume b
    from found_tag [OF this] obtain t
      where t: "resolved (doc ed) (openingDelimiter p) (closingDelimiter p) t"
        "(if forward then selTo ed else 0) \<le> parentStart t"
        "innerEnd t \<le> (if forward then int (length (doc ed)) - 1 else selFrom ed - 1)"
      by blast
    from t(1) have "startsWith (doc ed) (openingDelimiter p) (parentStart t)"
      "startsWith (doc ed) (closingDelimiter p) (innerEnd t)" "parentStart t < innerEnd t"
      by (simp_all add: resolved_def)
    with no t(2,3) show False by blast
  qed
  show ?thesis
  proof (intro exI conjI)
    show "parseWithLogger (Some l) ed p forward wrapCheck = Inr (b, p', ed')" by (rule call)
    show "b = (\<not> (wrapCheck \<and> tagStruct p = None) \<and>
           fst (scan (doc ed) (openingDelimiter p) (closingDelimiter p) forward
                  (cursorIndex ed forward) False (tagStruct p)))"
      using b Pair by simp
    show "\<not> b \<longrightarrow> tagStruct p' = None \<and> getTagPosition p' = None \<and>
             getTagContent p' = None \<and> getInnerTagPosition p' = None"
      using cleared
      by (simp add: getTagPosition_def getTagContent_def getInnerTagPosition_def)
    show "b \<longrightarrow> (\<exists>t. tagStruct p' = Some t \<and>
                 resolved (doc ed) (openingDelimiter p) (closingDelimiter p) t \<and>
                 (if forward then selTo ed else 0) \<le> parentStart t \<and>
                 innerEnd t \<le> (if forward then int (length (doc ed)) - 1
                                else selFrom ed - 1))"
      using found_tag by blast
    show "(\<forall>i j. (if forward then selTo ed else 0) \<le> i \<and> i < j \<and>
             j \<le> (if forward then int (length (doc ed)) - 1 else selFrom ed - 1) \<and>
             startsWith (doc ed) (openingDelimiter p) i
             \<longrightarrow> \<not> startsWith (doc ed) (closingDelimiter p) j) \<longrightarrow> \<not> b"
      using none by blast
  qed
qed

text \<open>
  A parser with a stale match state and the cursor after the only region of \<open>|<a>| b\<close>:
  the call returns false and the state is cleared.
\<close>

theorem parse_no_region_returns_false_witness:
  "\<exists>p' ed'.
     parseWithLogger (Some \<lparr>currentLogLevel = DEBUG\<rparr>)
       \<lparr>doc = ''|<a>| b'', selFrom = 6, selTo = 6\<rparr>
       ((newParser DEFAULT_SETTINGS ''|<'' ''>|'')
          \<lparr>tagStruct := Some (regionTag ''|<a>| b'' ''|<'' ''>|'' 0 3)\<rparr>) True False =
       Inr (False, p', ed') \<and>
     tagStruct p' = None \<and> getTagPosition p' = None"
proof -
  let ?ed = "\<lparr>doc = ''|<a>| b'', selFrom = 6, selTo = 6\<rparr>"
  let ?p = "(newParser DEFAULT_SETTINGS ''|<'' ''>|'')
          \<lparr>tagStruct := Some (regionTag ''|<a>| b'' ''|<'' ''>|'' 0 3)\<rparr>"
  have no: "\<forall>i j. (if True then selTo ?ed else 0) \<le> i \<and> i < j \<and>
             j \<le> (if True then int (length (doc ?ed)) - 1 else selFrom ?ed - 1) \<and>
             startsWith (doc ?ed) (openingDelimiter ?p) i
             \<longrightarrow> \<not> startsWith (doc ?ed) (closingDelimiter ?p) j"
    by auto
  from parse_no_region_returns_false [of "\<lparr>currentLogLevel = DEBUG\<rparr>" ?ed ?p True False]
  obtain b p' ed' where
    call: "parseWithLogger (Some \<lparr>currentLogLevel = DEBUG\<rparr>) ?ed ?p True False =
             Inr (b, p', ed')"
    and cleared: "\<not> b \<longrightarrow> tagStruct p' = None \<and> getTagPosition p' = None \<and>
             getTagContent p' = None \<and> getInnerTagPosition p' = None"
    and none: "(\<forall>i j. (if True then selTo ?ed else 0) \<le> i \<and> i < j \<and>
             j \<le> (if True then int (length (doc ?ed)) - 1 else selFrom ?ed - 1) \<and>
             startsWith (doc ?ed) (openingDelimiter ?p) i
             \<longrightarrow> \<not> startsWith (doc ?ed) (closingDelimiter ?p) j) \<longrightarrow> \<not> b"
    by blast
  from none no have nb: "\<not> b" by (rule mp)
  with cleared have st: "tagStruct p' = None" "getTagPosition p' = None" by simp_all
  from call nb
  have "parseWithLogger (Some \<lparr>currentLogLevel = DEBUG\<rparr>) ?ed ?p True False =
          Inr (False, p', ed')" by simp
  with st show ?thesis by (intro exI [of _ p'] exI [of _ ed']) simp
qed

subsection \<open>C10: the cursor after a failed parse with wrap-around\<close>

text \<open>
  Claim C10 says that with wrap-around enabled a failing parse that is not a wrap retry
  moves the cursor to offset 0 (forward) or to the end of the text (backward) before it
  returns false. The code moves the cursor only when \<^verbatim>\<open>this.tagStruct === null\<close> holds
  after the loop, although its comment there reads: check if we found a tag, if not and
  wrap around is enabled try again from the other end. Two calls that find no tag and
  leave the cursor where it was: in \<open>x|<a\<close> the forward scan from offset 1 meets the
  opening delimiter and builds a tag that is never closed, so \<open>tagStruct\<close> is not null
  after the loop; and after a successful parse of \<open>|<a>| b\<close> and the highlighting of the
  found region, a second forward parse meets no delimiter, but \<open>tagStruct\<close> still holds the
  tag of the first parse. Both return false with the cursor, or the selection, unmoved.
\<close>

theorem parse_failing_keeps_cursor:
  "parse \<lparr>doc = ''x|<a'', selFrom = 1, selTo = 1\<rparr>
     (newParser DEFAULT_SETTINGS ''|<'' ''>|'') True False =
   (False, newParser DEFAULT_SETTINGS ''|<'' ''>|'',
    \<lparr>doc = ''x|<a'', selFrom = 1, selTo = 1\<rparr>) \<and>
   (case parse \<lparr>doc = ''|<a>| b'', selFrom = 0, selTo = 0\<rparr>
       (newParser DEFAULT_SETTINGS ''|<'' ''>|'') True False of
      (found, p1, ed1) \<Rightarrow>
        (case highlightTag ed1 p1 of
           (shown, ed2) \<Rightarrow>
             found \<and> shown \<and> selFrom ed2 = 0 \<and> selTo ed2 = 5 \<and>
             parse ed2 p1 True False =
               (False, newParser DEFAULT_SETTINGS ''|<'' ''>|'', ed2)))"
  by code_simp

end
